theory Spec2Isabelle
  imports Main "HOL-Library.Sublist"
begin

section \<open>Byte strings, file objects and the struct codecs\<close>

text \<open>
  The module is Python 2 code: a \<open>str\<close> is a byte string, so file contents, realms,
  components and key material are all \<^typ>\<open>string\<close> (a list of 8-bit characters).
  Python integers are unbounded and are modelled by \<^typ>\<open>int\<close>.
\<close>

datatype error = EOFError | StructError | KeyError | ValueError

text \<open>
  A file object opened for reading: the bytes of the file and the read position
  (\<open>f.tell()\<close>).  \<open>f.read(n)\<close> returns at most \<open>n\<close> bytes, fewer at the end of the
  file, and never fails; a negative \<open>n\<close> reads everything that is left.
\<close>

record stream =
  content :: string
  pos :: nat

definition tell :: "stream \<Rightarrow> int" where
  "tell f = int (pos f)"

definition avail :: "stream \<Rightarrow> string" where
  "avail f = drop (pos f) (content f)"

definition read :: "int \<Rightarrow> stream \<Rightarrow> string \<times> stream" where
  "read n f =
     (let d = (if n < 0 then avail f else take (nat n) (avail f))
      in (d, f\<lparr>pos := pos f + length d\<rparr>))"

text \<open>The four module-level \<open>struct.Struct\<close> objects, all in network byte order.\<close>

datatype struct = Char | Uint16 | Int32 | Uint32

fun struct_size :: "struct \<Rightarrow> nat" where
  "struct_size Char = 1"
| "struct_size Uint16 = 2"
| "struct_size Int32 = 4"
| "struct_size Uint32 = 4"

definition be_int :: "string \<Rightarrow> int" where
  "be_int d = foldl (\<lambda>a c. a * 256 + of_char c) 0 d"

fun be_bytes :: "nat \<Rightarrow> int \<Rightarrow> string" where
  "be_bytes 0 n = []"
| "be_bytes (Suc k) n = be_bytes k (n div 256) @ [char_of (n mod 256)]"

text \<open>
  \<open>st.unpack(d)[0]\<close>: raises \<open>struct.error\<close> unless \<open>d\<close> has exactly the size of the
  format; \<open>Int32\<close> is two's complement.
\<close>

definition unpack :: "struct \<Rightarrow> string \<Rightarrow> error + int" where
  "unpack st d =
     (if length d \<noteq> struct_size st then Inl StructError
      else if st = Int32 \<and> 2 ^ 31 \<le> be_int d then Inr (be_int d - 2 ^ 32)
      else Inr (be_int d))"

fun struct_min :: "struct \<Rightarrow> int" where
  "struct_min Int32 = - (2 ^ 31)"
| "struct_min st = 0"

fun struct_max :: "struct \<Rightarrow> int" where
  "struct_max Char = 2 ^ 8 - 1"
| "struct_max Uint16 = 2 ^ 16 - 1"
| "struct_max Int32 = 2 ^ 31 - 1"
| "struct_max Uint32 = 2 ^ 32 - 1"

text \<open>\<open>st.pack(n)\<close>: raises \<open>struct.error\<close> when \<open>n\<close> is outside the range of the format.\<close>

definition pack :: "struct \<Rightarrow> int \<Rightarrow> error + string" where
  "pack st n =
     (if n < struct_min st \<or> struct_max st < n then Inl StructError
      else Inr (be_bytes (struct_size st) (n mod 2 ^ (8 * struct_size st))))"

text \<open>The recurring idiom \<open>st.unpack(f.read(st.size))[0]\<close>.\<close>

definition read_struct :: "struct \<Rightarrow> stream \<Rightarrow> error + (int \<times> stream)" where
  "read_struct st f =
     (case read (int (struct_size st)) f of (d, f') \<Rightarrow>
        (case unpack st d of Inl e \<Rightarrow> Inl e | Inr v \<Rightarrow> Inr (v, f')))"

text \<open>\<open>sep.join(xs)\<close> and \<open>s.split(c)\<close> for a one-character separator.\<close>

fun join :: "string \<Rightarrow> string list \<Rightarrow> string" where
  "join sep [] = []"
| "join sep [x] = x"
| "join sep (x # y # ys) = x @ sep @ join sep (y # ys)"

fun split :: "char \<Rightarrow> string \<Rightarrow> string list" where
  "split c [] = [[]]"
| "split c (x # xs) =
     (if x = c then [] # split c xs
      else (case split c xs of [] \<Rightarrow> [[x]] | p # ps \<Rightarrow> (x # p) # ps))"

section \<open>Krb5File: the shared decoder\<close>

text \<open>
  The attributes of a \<open>Krb5File\<close> object that the codecs consult: the version tag and
  the struct used for array lengths.  \<open>__init__\<close> sets \<open>array\<close> to \<open>uint16\<close>; \<open>load\<close>
  reads the version and switches \<open>array\<close> to \<open>uint32\<close> exactly for \<open>0x0504\<close>.
\<close>

record krb5file =
  version :: int
  array :: struct

definition after_version :: "int \<Rightarrow> krb5file" where
  "after_version v = \<lparr>version = v, array = (if v = 0x0504 then Uint32 else Uint16)\<rparr>"

record principal =
  name_type :: "int option"
  "value" :: string

record keyblock =
  type :: int
  etype :: "string option"
  val :: string


definition read_array :: "krb5file \<Rightarrow> stream \<Rightarrow> error + (string \<times> stream)" where
  "read_array self f =
     (case read_struct (array self) f of
        Inl e \<Rightarrow> Inl e
      | Inr (len, f1) \<Rightarrow> Inr (read len f1))"

text \<open>The loop \<open>for i in range(n): components.append(self._read_array(f))\<close>.\<close>

fun read_arrays :: "krb5file \<Rightarrow> nat \<Rightarrow> stream \<Rightarrow> error + (string list \<times> stream)" where
  "read_arrays self 0 f = Inr ([], f)"
| "read_arrays self (Suc n) f =
     (case read_array self f of
        Inl e \<Rightarrow> Inl e
      | Inr (a, f1) \<Rightarrow>
          (case read_arrays self n f1 of
             Inl e \<Rightarrow> Inl e
           | Inr (as, f2) \<Rightarrow> Inr (a # as, f2)))"

text \<open>
  The \<open>try\<close> block of \<open>_read_principal\<close>: the leading name type (version \<open>0x0504\<close>
  only) and the component count; a \<open>struct.error\<close> in either is turned into
  \<open>EOFError\<close>.
\<close>

definition read_principal_head :: "krb5file \<Rightarrow> stream \<Rightarrow> error + ((int option \<times> int) \<times> stream)" where
  "read_principal_head self f =
     (case (if version self = 0x0504
            then (case read_struct Uint32 f of
                    Inl e \<Rightarrow> Inl e
                  | Inr (nt, f1) \<Rightarrow> Inr (Some nt, f1))
            else Inr (None, f)) of
        Inl e \<Rightarrow> Inl EOFError
      | Inr (nt, f1) \<Rightarrow>
          (case read_struct (array self) f1 of
             Inl e \<Rightarrow> Inl EOFError
           | Inr (num_components, f2) \<Rightarrow> Inr ((nt, num_components), f2)))"

definition read_principal :: "krb5file \<Rightarrow> stream \<Rightarrow> error + (principal \<times> stream)" where
  "read_principal self f =
     (case read_principal_head self f of
        Inl e \<Rightarrow> Inl e
      | Inr ((nt, num_components), f2) \<Rightarrow>
          (case read_array self f2 of
             Inl e \<Rightarrow> Inl e
           | Inr (realm, f3) \<Rightarrow>
               (case read_arrays self (nat num_components) f3 of
                  Inl e \<Rightarrow> Inl e
                | Inr (components, f4) \<Rightarrow>
                    (case (if version self = 0x0502
                           then (case read_struct Uint32 f4 of
                                   Inl e \<Rightarrow> Inl e
                                 | Inr (nt', f5) \<Rightarrow> Inr (Some nt', f5))
                           else Inr (nt, f4)) of
                       Inl e \<Rightarrow> Inl e
                     | Inr (nt2, f5) \<Rightarrow>
                         Inr (\<lparr>name_type = nt2,
                               value = join ''/'' components @ ''@'' @ realm\<rparr>, f5)))))"

definition read_time :: "stream \<Rightarrow> error + (int \<times> stream)" where
  "read_time f = read_struct Uint32 f"

definition read_keyblock :: "krb5file \<Rightarrow> stream \<Rightarrow> error + (keyblock \<times> stream)" where
  "read_keyblock self f =
     (case read_struct Uint16 f of
        Inl e \<Rightarrow> Inl e
      | Inr (t, f1) \<Rightarrow>
          (case (if version self > 0x0502
                 then (case read 2 f1 of (d, f') \<Rightarrow> (Some d, f'))
                 else (None, f1)) of
             (et, f2) \<Rightarrow>
               (case read_struct Uint16 f2 of
                  Inl e \<Rightarrow> Inl e
                | Inr (keylen, f3) \<Rightarrow>
                    (case read keylen f3 of
                       (v, f4) \<Rightarrow> Inr (\<lparr>type = t, etype = et, val = v\<rparr>, f4)))))"

definition make_array :: "krb5file \<Rightarrow> string \<Rightarrow> error + string" where
  "make_array self arr =
     (case pack (array self) (int (length arr)) of
        Inl e \<Rightarrow> Inl e
      | Inr l \<Rightarrow> Inr (l @ arr))"

section \<open>Keytab\<close>

record keytab_entry =
  principal :: principal
  timestamp :: int
  vno8 :: int
  key :: keyblock
  vno :: "int option"


definition get_entry_size :: "stream \<Rightarrow> error + (int \<times> stream)" where
  "get_entry_size f =
     (case read 4 f of (d, f') \<Rightarrow>
        if length d < 4 then Inl EOFError
        else (case unpack Int32 d of Inl e \<Rightarrow> Inl e | Inr sz \<Rightarrow> Inr (sz, f')))"

definition read_vno8 :: "stream \<Rightarrow> error + (int \<times> stream)" where
  "read_vno8 f = read_struct Char f"

definition read_vno :: "stream \<Rightarrow> int \<Rightarrow> int \<Rightarrow> error + (int option \<times> stream)" where
  "read_vno f sz start =
     (let finish = tell f;
          remaining = sz - (finish - start)
      in (case (if remaining \<ge> 4
                then (case read_struct Uint32 f of
                        Inl e \<Rightarrow> Inl e
                      | Inr (v, f1) \<Rightarrow> Inr (Some v, remaining - 4, f1))
                else Inr (None, remaining, f)) of
            Inl e \<Rightarrow> Inl e
          | Inr (v, remaining', f1) \<Rightarrow>
              if remaining' > 0 then Inr (v, snd (read remaining' f1))
              else Inr (v, f1)))"

text \<open>
  The head of \<open>_load_entry\<close>: while the size just read is negative, skip that many
  bytes and read the next size.
\<close>

function skip_holes :: "int \<Rightarrow> stream \<Rightarrow> error + (int \<times> stream)" where
  "skip_holes sz f =
     (if sz < 0
      then (case get_entry_size (snd (read (- sz) f)) of
              Inl e \<Rightarrow> Inl e
            | Inr (sz', f') \<Rightarrow> skip_holes sz' f')
      else Inr (sz, f))"
  by pat_completeness auto
termination
proof (relation "measure (\<lambda>(sz, f). length (content f) - pos f)", goal_cases)
  case 1
  show ?case by simp
next
  case (2 sz f x2 sz' f')
  obtain d g where dg: "read (- sz) f = (d, g)"
    by (cases "read (- sz) f")
  have g: "pos f \<le> pos g" "content g = content f"
    using dg by (auto simp: read_def Let_def)
  have "get_entry_size g = Inr (sz', f')"
    using 2(2,3) dg by simp
  then have "content f' = content g" "pos f' = pos g + 4" "pos g + 4 \<le> length (content g)"
    by (auto simp: get_entry_size_def read_def avail_def Let_def split: if_splits sum.splits)
  with g show ?case by simp
qed

declare skip_holes.simps [simp del]

text \<open>
  The four field reads of \<open>_load_entry\<close> between \<open>start = f.tell()\<close> and the call of
  \<open>_read_vno\<close>: principal, timestamp, key-version byte, key block.
\<close>

definition read_fields ::
  "krb5file \<Rightarrow> stream \<Rightarrow> error + ((principal \<times> int \<times> int \<times> keyblock) \<times> stream)" where
  "read_fields self f =
     (case read_principal self f of
        Inl e \<Rightarrow> Inl e
      | Inr (p, f1) \<Rightarrow>
          (case read_time f1 of
             Inl e \<Rightarrow> Inl e
           | Inr (t, f2) \<Rightarrow>
               (case read_vno8 f2 of
                  Inl e \<Rightarrow> Inl e
                | Inr (v8, f3) \<Rightarrow>
                    (case read_keyblock self f3 of
                       Inl e \<Rightarrow> Inl e
                     | Inr (k, f4) \<Rightarrow> Inr ((p, t, v8, k), f4)))))"

definition load_entry :: "krb5file \<Rightarrow> stream \<Rightarrow> error + (keytab_entry \<times> stream)" where
  "load_entry self f =
     (case get_entry_size f of
        Inl e \<Rightarrow> Inl e
      | Inr (sz0, f0) \<Rightarrow>
          (case skip_holes sz0 f0 of
             Inl e \<Rightarrow> Inl e
           | Inr (sz, f1) \<Rightarrow>
               (let start = tell f1 in
                case read_fields self f1 of
                  Inl e \<Rightarrow> Inl e
                | Inr ((p, t, v8, k), f2) \<Rightarrow>
                    (case read_vno f2 sz start of
                       Inl e \<Rightarrow> Inl e
                     | Inr (v, f3) \<Rightarrow>
                         Inr (\<lparr>principal = p, timestamp = t, vno8 = v8, key = k, vno = v\<rparr>,
                              f3)))))"

subsection \<open>Every successful read moves forward inside the same file\<close>

definition follows :: "stream \<Rightarrow> stream \<Rightarrow> bool" where
  "follows f f' \<longleftrightarrow> content f' = content f \<and> pos f \<le> pos f'"

lemma follows_refl [simp]: "follows f f"
  by (simp add: follows_def)

lemma follows_trans: "follows f g \<Longrightarrow> follows g h \<Longrightarrow> follows f h"
  by (auto simp: follows_def)

lemma follows_read: "read n f = (d, f') \<Longrightarrow> follows f f'"
  by (auto simp: read_def follows_def Let_def)

lemma follows_snd_read [simp]: "follows f (snd (read n f))"
  by (cases "read n f") (auto dest: follows_read)

lemma follows_read_struct: "read_struct st f = Inr (v, f') \<Longrightarrow> follows f f'"
  by (auto simp: read_struct_def split: prod.splits sum.splits dest: follows_read)

lemma follows_read_array: "read_array self f = Inr (a, f') \<Longrightarrow> follows f f'"
  by (auto simp: read_array_def follows_def split: prod.splits sum.splits
      dest!: follows_read_struct follows_read)

lemma follows_read_arrays: "read_arrays self n f = Inr (as, f') \<Longrightarrow> follows f f'"
proof (induction n arbitrary: f as)
  case 0
  then show ?case by simp
next
  case (Suc n)
  from Suc.prems obtain a f1 as' where
    a: "read_array self f = Inr (a, f1)" and r: "read_arrays self n f1 = Inr (as', f')"
    by (auto split: sum.splits)
  from follows_read_array [OF a] Suc.IH [OF r] show ?case
    by (rule follows_trans)
qed

lemma follows_read_principal_head:
  "read_principal_head self f = Inr (x, f') \<Longrightarrow> follows f f'"
  by (auto simp: read_principal_head_def follows_def split: if_splits prod.splits sum.splits
      dest!: follows_read_struct)

lemma follows_read_principal: "read_principal self f = Inr (p, f') \<Longrightarrow> follows f f'"
  unfolding read_principal_def
  by (auto simp: follows_def split: if_splits prod.splits sum.splits
      dest!: follows_read_struct follows_read_principal_head follows_read_array
        follows_read_arrays)

lemma follows_read_keyblock: "read_keyblock self f = Inr (k, f') \<Longrightarrow> follows f f'"
  unfolding read_keyblock_def
  by (auto simp: follows_def split: if_splits prod.splits sum.splits
      dest!: follows_read_struct follows_read)

lemma follows_read_fields: "read_fields self f = Inr (x, f') \<Longrightarrow> follows f f'"
  unfolding read_fields_def read_time_def read_vno8_def
  by (auto simp: follows_def split: prod.splits sum.splits
      dest!: follows_read_struct follows_read_principal follows_read_keyblock)

lemma follows_read_vno: "read_vno f sz start = Inr (v, f') \<Longrightarrow> follows f f'"
  unfolding read_vno_def Let_def
  by (auto simp: follows_def read_def Let_def split: if_splits prod.splits sum.splits
      dest!: follows_read_struct)

lemma get_entry_size_advances:
  assumes "get_entry_size f = Inr (sz, f')"
  shows "content f' = content f" and "pos f' = pos f + 4" and "pos f + 4 \<le> length (content f)"
  using assms
  by (auto simp: get_entry_size_def read_def avail_def Let_def split: if_splits sum.splits)

lemma follows_skip_holes: "skip_holes sz f = Inr (sz', f') \<Longrightarrow> follows f f'"
proof (induction sz f rule: skip_holes.induct)
  case (1 sz f)
  show ?case
  proof (cases "sz < 0")
    case True
    with "1.prems" obtain sz1 f1 where
      g: "get_entry_size (snd (read (- sz) f)) = Inr (sz1, f1)" and
      s: "skip_holes sz1 f1 = Inr (sz', f')"
      by (subst (asm) skip_holes.simps) (auto split: sum.splits)
    have "follows (snd (read (- sz) f)) f1"
      using get_entry_size_advances [OF g] by (simp add: follows_def)
    moreover have "follows f1 f'"
      using "1.IH" [OF True g refl s] .
    ultimately show ?thesis
      using follows_snd_read [of f "- sz"] by (blast intro: follows_trans)
  next
    case False
    with "1.prems" show ?thesis
      by (subst (asm) skip_holes.simps) simp
  qed
qed

lemma load_entry_advances:
  assumes "load_entry self f = Inr (e, f')"
  shows "content f' = content f" and "pos f + 4 \<le> pos f'" and "pos f + 4 \<le> length (content f)"
proof -
  from assms obtain sz0 f0 sz f1 x f2 v where
    g: "get_entry_size f = Inr (sz0, f0)" and
    s: "skip_holes sz0 f0 = Inr (sz, f1)" and
    r: "read_fields self f1 = Inr (x, f2)" and
    n: "read_vno f2 sz (tell f1) = Inr (v, f')"
    by (auto simp: load_entry_def Let_def split: sum.splits prod.splits)
  have "follows f0 f'"
    using follows_skip_holes [OF s] follows_read_fields [OF r] follows_read_vno [OF n]
    by (blast intro: follows_trans)
  with get_entry_size_advances [OF g]
  show "content f' = content f" and "pos f + 4 \<le> pos f'" and "pos f + 4 \<le> length (content f)"
    by (auto simp: follows_def)
qed

subsection \<open>The loop of \<open>load\<close>\<close>

text \<open>
  \<open>while 1: try: entry = self._load_entry(f) except EOFError: break; self.append(entry)\<close>.
  Only \<open>EOFError\<close> ends the loop normally; any other exception leaves \<open>load\<close>.
\<close>

function load_loop :: "krb5file \<Rightarrow> stream \<Rightarrow> keytab_entry list \<Rightarrow> error + keytab_entry list" where
  "load_loop self f acc =
     (case load_entry self f of
        Inl e \<Rightarrow> (if e = EOFError then Inr acc else Inl e)
      | Inr (entry, f') \<Rightarrow> load_loop self f' (acc @ [entry]))"
  by pat_completeness auto
termination
proof (relation "measure (\<lambda>(self, f, acc). length (content f) - pos f)", goal_cases)
  case 1
  show ?case by simp
next
  case (2 self f acc x2 entry f')
  then have "load_entry self f = Inr (entry, f')"
    by simp
  from load_entry_advances [OF this] show ?case
    by simp
qed

declare load_loop.simps [simp del]


subsection \<open>The encoder\<close>

text \<open>The loop \<open>for c in components: data += self._make_array(c)\<close>.\<close>

fun make_arrays :: "krb5file \<Rightarrow> string list \<Rightarrow> error + string" where
  "make_arrays self [] = Inr []"
| "make_arrays self (c # cs) =
     (case make_array self c of
        Inl e \<Rightarrow> Inl e
      | Inr d \<Rightarrow>
          (case make_arrays self cs of
             Inl e \<Rightarrow> Inl e
           | Inr ds \<Rightarrow> Inr (d @ ds)))"

text \<open>
  \<open>__write_entry\<close>; the result is the byte string handed to \<open>f.write\<close>.  The tuple
  assignment \<open>princ, realm = value.split('@')\<close> raises \<open>ValueError\<close> unless the split
  has exactly two parts; a principal without \<open>name_type\<close> raises \<open>KeyError\<close>;
  \<open>if entry["vno"]\<close> is false for \<open>None\<close> and for \<open>0\<close>.
\<close>

definition write_entry :: "krb5file \<Rightarrow> keytab_entry \<Rightarrow> error + string" where
  "write_entry self entry =
     (case split CHR ''@'' (value (principal entry)) of
        [princ, realm] \<Rightarrow>
          (let components = split CHR ''/'' princ in
          (case pack Uint16 (int (length components)) of Inl e \<Rightarrow> Inl e | Inr d1 \<Rightarrow>
          (case make_array self realm of Inl e \<Rightarrow> Inl e | Inr d2 \<Rightarrow>
          (case make_arrays self components of Inl e \<Rightarrow> Inl e | Inr d3 \<Rightarrow>
          (case name_type (principal entry) of None \<Rightarrow> Inl KeyError | Some nt \<Rightarrow>
          (case pack Uint32 nt of Inl e \<Rightarrow> Inl e | Inr d4 \<Rightarrow>
          (case pack Uint32 (timestamp entry) of Inl e \<Rightarrow> Inl e | Inr d5 \<Rightarrow>
          (case pack Char (vno8 entry) of Inl e \<Rightarrow> Inl e | Inr d6 \<Rightarrow>
          (case pack Uint16 (type (key entry)) of Inl e \<Rightarrow> Inl e | Inr d7 \<Rightarrow>
          (case make_array self (val (key entry)) of Inl e \<Rightarrow> Inl e | Inr d8 \<Rightarrow>
          (case (case vno entry of
                   None \<Rightarrow> Inr []
                 | Some v \<Rightarrow> (if v = 0 then Inr [] else pack Uint32 v)) of
             Inl e \<Rightarrow> Inl e
           | Inr d9 \<Rightarrow>
          (let data = d1 @ d2 @ d3 @ d4 @ d5 @ d6 @ d7 @ d8 @ d9 in
          (case pack Int32 (int (length data)) of
             Inl e \<Rightarrow> Inl e
           | Inr h \<Rightarrow> Inr (h @ data))))))))))))))
      | _ \<Rightarrow> Inl ValueError)"

subsection \<open>Filtering\<close>

text \<open>
  \<open>list.remove(x)\<close> deletes the first element equal to \<open>x\<close> and raises \<open>ValueError\<close>
  when there is none.  Dictionaries compare by their contents, as records do.
\<close>

fun remove :: "'a \<Rightarrow> 'a list \<Rightarrow> error + 'a list" where
  "remove k [] = Inl ValueError"
| "remove k (x # xs) =
     (if x = k then Inr xs
      else (case remove k xs of Inl e \<Rightarrow> Inl e | Inr xs' \<Rightarrow> Inr (x # xs')))"

text \<open>The loop \<open>for key in other_keys: self.remove(key)\<close>.\<close>

fun remove_each :: "'a list \<Rightarrow> 'a list \<Rightarrow> error + 'a list" where
  "remove_each [] self = Inr self"
| "remove_each (k # ks) self =
     (case remove k self of Inl e \<Rightarrow> Inl e | Inr self' \<Rightarrow> remove_each ks self')"

text \<open>
  \<open>Keytab.filter\<close>.  The compiled pattern is used only through \<open>princs.match(s)\<close>,
  whose truth value is the parameter \<open>match\<close>.  Under Python 2 the builtin \<open>filter\<close>
  returns the list of the entries that match; \<open>other_keys\<close> collects, in order, the
  entries that are not \<open>in\<close> that list.
\<close>

definition filter_keytab :: "(string \<Rightarrow> bool) \<Rightarrow> keytab_entry list \<Rightarrow> error + keytab_entry list" where
  "filter_keytab match self =
     (let keys = filter (\<lambda>k. match (value (principal k))) self;
          other_keys = filter (\<lambda>key. key \<notin> set keys) self
      in remove_each other_keys self)"

section \<open>CredentialCache\<close>

record times =
  authtime :: int
  starttime :: int
  endtime :: int
  renew_till :: int

record credential =
  client :: principal
  server :: principal
  cred_key :: keyblock
  times :: times
  is_skey :: int
  tktflags :: int
  addrs :: "string list"
  authdata :: "string list"
  ticket :: string
  ticket2 :: string

text \<open>
  \<open>is_tgt_expired\<close>.  The clock value that the source computes as
  \<open>calendar.timegm(datetime.datetime.now().timetuple()) + time.timezone\<close> is the
  parameter \<open>now\<close>.  Falling off the end of the loop returns Python's \<open>None\<close>.
\<close>

fun is_tgt_expired :: "int \<Rightarrow> credential list \<Rightarrow> int \<Rightarrow> bool option" where
  "is_tgt_expired now [] secs = None"
| "is_tgt_expired now (k # rest) secs =
     (let server = value (server k);
          service = hd (split CHR ''/'' server)
      in if service = ''krbtgt''
         then (let expires = endtime (times k)
               in if expires \<le> now + secs then Some True else Some False)
         else is_tgt_expired now rest secs)"

section \<open>Properties of the keytab decoder\<close>

lemma skip_holes_nonneg: "0 \<le> sz \<Longrightarrow> skip_holes sz f = Inr (sz, f)"
  by (subst skip_holes.simps) simp

lemma skip_holes_neg:
  "sz < 0 \<Longrightarrow> skip_holes sz f =
     (case get_entry_size (snd (read (- sz) f)) of
        Inl e \<Rightarrow> Inl e
      | Inr (sz', f') \<Rightarrow> skip_holes sz' f')"
  by (subst skip_holes.simps) simp

lemma load_loop_step:
  "load_entry self f = Inr (e, f') \<Longrightarrow> load_loop self f acc = load_loop self f' (acc @ [e])"
  by (subst load_loop.simps) simp



lemma load_loop_cong:
  "load_entry self f = load_entry self g \<Longrightarrow> load_loop self f acc = load_loop self g acc"
  by (subst load_loop.simps, subst (2) load_loop.simps) simp

lemma load_loop_acc:
  "load_loop self f acc =
     (case load_loop self f [] of Inl e \<Rightarrow> Inl e | Inr es \<Rightarrow> Inr (acc @ es))"
proof (induction "length (content f) - pos f" arbitrary: f acc rule: less_induct)
  case less
  show ?case
  proof (cases "load_entry self f")
    case (Inl e)
    then show ?thesis
      by (simp add: load_loop.simps [of self f])
  next
    case (Inr x)
    obtain entry f' where x: "load_entry self f = Inr (entry, f')"
      using Inr by (cases x) simp
    from load_entry_advances [OF x]
    have "length (content f') - pos f' < length (content f) - pos f"
      by simp
    then have IH: "load_loop self f' a =
        (case load_loop self f' [] of Inl e \<Rightarrow> Inl e | Inr es \<Rightarrow> Inr (a @ es))" for a
      by (rule less.hyps)
    have l: "load_loop self f acc =
        (case load_loop self f' [] of Inl e \<Rightarrow> Inl e | Inr es \<Rightarrow> Inr (acc @ entry # es))"
      unfolding load_loop_step [OF x, of acc] IH [of "acc @ [entry]"]
      by (simp split: sum.split)
    have r: "load_loop self f [] =
        (case load_loop self f' [] of Inl e \<Rightarrow> Inl e | Inr es \<Rightarrow> Inr (entry # es))"
      unfolding load_loop_step [OF x, of "[]"] IH [of "[] @ [entry]"]
      by (simp split: sum.split)
    show ?thesis
      unfolding l r by (simp split: sum.split)
  qed
qed

subsection \<open>C10: an entry longer than its declared size\<close>

definition overlong_example :: string where
  "overlong_example =
     [CHR 0x00, CHR 0x00, CHR 0x00, CHR 0x01,
      CHR 0x00, CHR 0x01, CHR 0x00, CHR 0x01, CHR ''R'', CHR 0x00, CHR 0x01, CHR ''a'',
      CHR 0x00, CHR 0x00, CHR 0x00, CHR 0x01,
      CHR 0x00, CHR 0x00, CHR 0x00, CHR 0x07,
      CHR 0x02,
      CHR 0x00, CHR 0x12, CHR 0x00, CHR 0x01, CHR ''k'',
      CHR 0x00, CHR 0x00, CHR 0x00, CHR 0x02]"

text \<open>
  Claim C10.  When the fields of an entry with a positive declared size consume more
  bytes than that size, \<open>_load_entry\<close> raises nothing and does not reposition the
  stream: no trailing key version is read (\<open>vno\<close> is \<open>None\<close>), no byte is skipped (the
  stream is left where the key block ended), the entry is appended, and the loop of
  \<open>load\<close> goes on from that position, where it reads the next size field.  So the
  container that \<open>load\<close> returns holds the entries decoded before, then the over-long
  entry, then whatever the loop decodes from the position after its key block; and
  \<open>load\<close> raises only if decoding from there raises.
\<close>

theorem overlong_entry_not_repositioned:
  assumes "get_entry_size f = Inr (sz, f1)" and "0 < sz"
    and "read_fields self f1 = Inr ((p, t, v8, k), f2)"
    and "sz < tell f2 - tell f1"
  shows "load_entry self f =
           Inr (\<lparr>principal = p, timestamp = t, vno8 = v8, key = k, vno = None\<rparr>, f2) \<and>
         load_loop self f acc =
           load_loop self f2
             (acc @ [\<lparr>principal = p, timestamp = t, vno8 = v8, key = k, vno = None\<rparr>]) \<and>
         load_loop self f acc =
           (case load_loop self f2 [] of
              Inl e \<Rightarrow> Inl e
            | Inr es \<Rightarrow>
                Inr (acc @ \<lparr>principal = p, timestamp = t, vno8 = v8, key = k, vno = None\<rparr> # es))"
proof -
  let ?entry = "\<lparr>principal = p, timestamp = t, vno8 = v8, key = k, vno = None\<rparr>"
  have v: "read_vno f2 sz (tell f1) = Inr (None, f2)"
    using assms(4) by (simp add: read_vno_def Let_def)
  have e: "load_entry self f = Inr (?entry, f2)"
    using assms(1-3) v by (simp add: load_entry_def skip_holes_nonneg Let_def)
  have s: "load_loop self f acc = load_loop self f2 (acc @ [?entry])"
    by (rule load_loop_step [OF e])
  have "load_loop self f2 (acc @ [?entry]) =
      (case load_loop self f2 [] of Inl e \<Rightarrow> Inl e | Inr es \<Rightarrow> Inr (acc @ ?entry # es))"
    unfolding load_loop_acc [of self f2 "acc @ [?entry]"] by (simp split: sum.split)
  with s have "load_loop self f acc =
      (case load_loop self f2 [] of Inl e \<Rightarrow> Inl e | Inr es \<Rightarrow> Inr (acc @ ?entry # es))"
    by (rule trans)
  with e s show ?thesis
    by (intro conjI)
qed

text \<open>
  The size field below reads 1 and the fields take 22 bytes.  The entry is decoded
  with no key version, the stream is left at offset 26, and the loop returns a
  container that holds the entry.
\<close>

theorem overlong_entry_not_repositioned_witness:
  "load_entry (after_version 0x0502) \<lparr>content = overlong_example, pos = 0\<rparr> =
     Inr (\<lparr>principal = \<lparr>name_type = Some 1, value = ''a@R''\<rparr>, timestamp = 7, vno8 = 2,
           key = \<lparr>type = 18, etype = None, val = ''k''\<rparr>, vno = None\<rparr>,
          \<lparr>content = overlong_example, pos = 26\<rparr>) \<and>
   load_loop (after_version 0x0502) \<lparr>content = overlong_example, pos = 0\<rparr> [] =
     Inr [\<lparr>principal = \<lparr>name_type = Some 1, value = ''a@R''\<rparr>, timestamp = 7, vno8 = 2,
           key = \<lparr>type = 18, etype = None, val = ''k''\<rparr>, vno = None\<rparr>]"
proof -
  have 1: "get_entry_size \<lparr>content = overlong_example, pos = 0\<rparr> =
      Inr (1, \<lparr>content = overlong_example, pos = 4\<rparr>)"
    by code_simp
  have 2: "(0::int) < 1" by simp
  have 3: "read_fields (after_version 0x0502) \<lparr>content = overlong_example, pos = 4\<rparr> =
      Inr ((\<lparr>name_type = Some 1, value = ''a@R''\<rparr>, 7, 2,
            \<lparr>type = 18, etype = None, val = ''k''\<rparr>),
           \<lparr>content = overlong_example, pos = 26\<rparr>)"
    by code_simp
  have 4: "1 < tell \<lparr>content = overlong_example, pos = 26\<rparr>
             - tell \<lparr>content = overlong_example, pos = 4\<rparr>"
    by (simp add: tell_def)
  have 5: "load_loop (after_version 0x0502) \<lparr>content = overlong_example, pos = 26\<rparr> [] = Inr []"
    by code_simp
  note t = overlong_entry_not_repositioned [OF 1 2 3 4, of "[]"]
  from t have a: "load_entry (after_version 0x0502) \<lparr>content = overlong_example, pos = 0\<rparr> =
     Inr (\<lparr>principal = \<lparr>name_type = Some 1, value = ''a@R''\<rparr>, timestamp = 7, vno8 = 2,
           key = \<lparr>type = 18, etype = None, val = ''k''\<rparr>, vno = None\<rparr>,
          \<lparr>content = overlong_example, pos = 26\<rparr>)"
    by (rule conjunct1)
  from t have "load_loop (after_version 0x0502) \<lparr>content = overlong_example, pos = 0\<rparr> [] =
     (case load_loop (after_version 0x0502) \<lparr>content = overlong_example, pos = 26\<rparr> [] of
        Inl e \<Rightarrow> Inl e
      | Inr es \<Rightarrow>
          Inr ([] @ \<lparr>principal = \<lparr>name_type = Some 1, value = ''a@R''\<rparr>, timestamp = 7,
                   vno8 = 2, key = \<lparr>type = 18, etype = None, val = ''k''\<rparr>,
                   vno = None\<rparr> # es))"
    by (rule conjunct2 [THEN conjunct2])
  then have "load_loop (after_version 0x0502) \<lparr>content = overlong_example, pos = 0\<rparr> [] =
     Inr [\<lparr>principal = \<lparr>name_type = Some 1, value = ''a@R''\<rparr>, timestamp = 7, vno8 = 2,
           key = \<lparr>type = 18, etype = None, val = ''k''\<rparr>, vno = None\<rparr>]"
    by (simp add: 5)
  with a show ?thesis
    by (intro conjI)
qed

lemma snd_read_nonneg:
  "0 \<le> n \<Longrightarrow> snd (read n f) = f\<lparr>pos := pos f + min (nat n) (length (avail f))\<rparr>"
  by (cases "nat n \<le> length (avail f)") (simp_all add: read_def Let_def)

lemma fst_read_nonneg: "0 \<le> n \<Longrightarrow> fst (read n f) = take (nat n) (avail f)"
  by (simp add: read_def Let_def)

subsection \<open>C5: holes\<close>

definition short_hole_example :: string where
  "short_hole_example = [CHR 0xFF, CHR 0xFF, CHR 0xFF, CHR 0xF6, CHR 0x01, CHR 0x02, CHR 0x03]"

definition hole_example :: string where
  "hole_example =
     [CHR 0xFF, CHR 0xFF, CHR 0xFF, CHR 0xFD, CHR 0x01, CHR 0x02, CHR 0x03,
      CHR 0x00, CHR 0x00, CHR 0x00, CHR 0x16,
      CHR 0x00, CHR 0x01, CHR 0x00, CHR 0x01, CHR ''R'', CHR 0x00, CHR 0x01, CHR ''a'',
      CHR 0x00, CHR 0x00, CHR 0x00, CHR 0x01,
      CHR 0x00, CHR 0x00, CHR 0x00, CHR 0x07,
      CHR 0x02,
      CHR 0x00, CHR 0x12, CHR 0x00, CHR 0x01, CHR ''k'']"

text \<open>
  Claim C5, as amended.  Where the size field reads as a negative value \<open>-N\<close>, the
  decoder produces no entry for it and goes on exactly as if it had started at the
  position reached by \<open>f.read(N)\<close>: \<open>N\<close> bytes past the size field when at least \<open>N\<close>
  bytes remain, the end of the file otherwise.  It reads the next size field there, so
  consecutive holes are skipped one after the other.  The loop of \<open>load\<close> carries the
  same list of entries across the hole.
\<close>

theorem hole_skipping:
  assumes "get_entry_size f = Inr (sz, f1)" and "sz < 0"
  shows "load_entry self f =
           load_entry self (f1\<lparr>pos := pos f1 + min (nat (- sz)) (length (avail f1))\<rparr>) \<and>
         load_loop self f acc =
           load_loop self (f1\<lparr>pos := pos f1 + min (nat (- sz)) (length (avail f1))\<rparr>) acc"
proof -
  let ?g = "f1\<lparr>pos := pos f1 + min (nat (- sz)) (length (avail f1))\<rparr>"
  have g: "snd (read (- sz) f1) = ?g"
    using assms(2) by (simp add: snd_read_nonneg)
  have s: "skip_holes sz f1 =
      (case get_entry_size ?g of Inl e \<Rightarrow> Inl e | Inr (sz', f') \<Rightarrow> skip_holes sz' f')"
    using skip_holes_neg [OF assms(2), of f1] by (simp only: g)
  have "load_entry self f = load_entry self ?g"
  proof (cases "get_entry_size ?g")
    case (Inl e)
    then have "skip_holes sz f1 = Inl e"
      using s by simp
    then have "load_entry self f = Inl e"
      by (simp add: load_entry_def [of self f] assms(1))
    moreover have "load_entry self ?g = Inl e"
      by (simp add: load_entry_def [of self ?g] Inl)
    ultimately show ?thesis by simp
  next
    case (Inr x)
    obtain sz0 f0 where x: "x = (sz0, f0)"
      by (cases x)
    have "skip_holes sz f1 = skip_holes sz0 f0"
      using s by (simp add: Inr x)
    then have "load_entry self f =
        (case skip_holes sz0 f0 of
           Inl e \<Rightarrow> Inl e
         | Inr (sz, f1) \<Rightarrow>
             (let start = tell f1 in
              case read_fields self f1 of
                Inl e \<Rightarrow> Inl e
              | Inr ((p, t, v8, k), f2) \<Rightarrow>
                  (case read_vno f2 sz start of
                     Inl e \<Rightarrow> Inl e
                   | Inr (v, f3) \<Rightarrow>
                       Inr (\<lparr>principal = p, timestamp = t, vno8 = v8, key = k, vno = v\<rparr>,
                            f3))))"
      by (simp add: load_entry_def [of self f] assms(1))
    also have "\<dots> = load_entry self ?g"
      by (simp add: load_entry_def [of self ?g] Inr x)
    finally show ?thesis .
  qed
  then show ?thesis
    using load_loop_cong [of self f ?g acc] by blast
qed

text \<open>
  Claim C5 as stated fails when the file is shorter than the hole: the size field
  below reads \<open>-10\<close>, three bytes follow it, and the read position advances by three,
  to the end of the file, where \<open>load\<close> stops normally.
\<close>

theorem hole_skipping_counterexample:
  "get_entry_size \<lparr>content = short_hole_example, pos = 0\<rparr> =
     Inr (- 10, \<lparr>content = short_hole_example, pos = 4\<rparr>) \<and>
   snd (read (- (- 10)) \<lparr>content = short_hole_example, pos = 4\<rparr>) =
     \<lparr>content = short_hole_example, pos = 7\<rparr> \<and>
   load_loop (after_version 0x0502) \<lparr>content = short_hole_example, pos = 0\<rparr> [] = Inr []"
  by code_simp

text \<open>A hole of three bytes in front of an entry: decoding resumes at offset 7.\<close>

theorem hole_skipping_witness:
  "load_entry (after_version 0x0502) \<lparr>content = hole_example, pos = 0\<rparr> =
     load_entry (after_version 0x0502) \<lparr>content = hole_example, pos = 7\<rparr> \<and>
   load_loop (after_version 0x0502) \<lparr>content = hole_example, pos = 0\<rparr> [] =
     load_loop (after_version 0x0502) \<lparr>content = hole_example, pos = 7\<rparr> []"
proof -
  have 1: "get_entry_size \<lparr>content = hole_example, pos = 0\<rparr> =
      Inr (- 3, \<lparr>content = hole_example, pos = 4\<rparr>)"
    by code_simp
  have 2: "(- 3 :: int) < 0" by simp
  have 3: "length (avail \<lparr>content = hole_example, pos = 4\<rparr>) = 29"
    by code_simp
  show ?thesis
    using hole_skipping [OF 1 2, of "after_version 0x0502" "[]"] by (simp add: 3)
qed

subsection \<open>C9: the trailing key version and the declared size\<close>

lemma read_struct_Uint32_avail:
  assumes "4 \<le> length (avail f)"
  shows "read_struct Uint32 f = Inr (be_int (take 4 (avail f)), f\<lparr>pos := pos f + 4\<rparr>)"
  using assms by (simp add: read_struct_def read_def Let_def unpack_def)

definition padded_example :: string where
  "padded_example =
     [CHR 0x00, CHR 0x00, CHR 0x00, CHR 0x1C,
      CHR 0x00, CHR 0x01, CHR 0x00, CHR 0x01, CHR ''R'', CHR 0x00, CHR 0x01, CHR ''a'',
      CHR 0x00, CHR 0x00, CHR 0x00, CHR 0x01,
      CHR 0x00, CHR 0x00, CHR 0x00, CHR 0x07,
      CHR 0x02,
      CHR 0x00, CHR 0x12, CHR 0x00, CHR 0x01, CHR ''k'',
      CHR 0x00, CHR 0x00, CHR 0x00, CHR 0x03,
      CHR 0xAA, CHR 0xBB,
      CHR 0x00, CHR 0x00]"

text \<open>
  Claim C9, as amended.  For an entry with a positive declared size whose fields
  (principal, timestamp, key-version byte, key block) consume no more than that size,
  in a file that holds the declared bytes: the trailing u32 key version is read exactly
  when at least 4 of the declared bytes are left after the fields, what is still left
  after that is read and dropped, and the read position ends exactly \<open>size\<close> bytes past
  the size field.
\<close>

theorem declared_size_respected:
  assumes g: "get_entry_size f = Inr (sz, f1)" and sz: "0 < sz"
    and r: "read_fields self f1 = Inr ((p, t, v8, k), f2)"
    and fit: "tell f2 - tell f1 \<le> sz"
    and len: "tell f1 + sz \<le> int (length (content f))"
  shows "\<exists>f3. load_entry self f =
           Inr (\<lparr>principal = p, timestamp = t, vno8 = v8, key = k,
                 vno = (if 4 \<le> sz - (tell f2 - tell f1)
                        then Some (be_int (take 4 (avail f2))) else None)\<rparr>, f3) \<and>
           tell f3 = tell f1 + sz"
proof -
  let ?rem = "sz - (tell f2 - tell f1)"
  have c1: "content f1 = content f"
    using get_entry_size_advances(1) [OF g] .
  have f12: "content f2 = content f1" "pos f1 \<le> pos f2"
    using follows_read_fields [OF r] by (simp_all add: follows_def)
  have room: "int (pos f2) + ?rem \<le> int (length (content f2))" "0 \<le> ?rem"
    using fit len c1 f12 by (simp_all add: tell_def)
  have av: "int (length (avail f2)) \<ge> ?rem"
    using room by (simp add: avail_def tell_def)
  have "\<exists>f3. read_vno f2 sz (tell f1) =
      Inr (if 4 \<le> ?rem then Some (be_int (take 4 (avail f2))) else None, f3) \<and>
      tell f3 = tell f1 + sz"
  proof (cases "4 \<le> ?rem")
    case True
    then have a4: "4 \<le> length (avail f2)"
      using av by linarith
    let ?f2' = "f2\<lparr>pos := pos f2 + 4\<rparr>"
    have av': "int (length (avail ?f2')) \<ge> ?rem - 4"
      using av a4 by (simp add: avail_def)
    show ?thesis
    proof (cases "?rem - 4 > 0")
      case pad: True
      have "min (nat (?rem - 4)) (length (avail ?f2')) = nat (?rem - 4)"
        using pad av' by linarith
      then have "tell (snd (read (?rem - 4) ?f2')) = tell f1 + sz"
        using pad f12 by (simp add: snd_read_nonneg tell_def)
      with True pad show ?thesis
        by (simp add: read_vno_def Let_def read_struct_Uint32_avail [OF a4])
    next
      case nopad: False
      with True have "?rem = 4" by simp
      then have "tell ?f2' = tell f1 + sz"
        using f12 by (simp add: tell_def)
      with True nopad show ?thesis
        by (simp add: read_vno_def Let_def read_struct_Uint32_avail [OF a4])
    qed
  next
    case False
    show ?thesis
    proof (cases "?rem > 0")
      case pad: True
      have "min (nat ?rem) (length (avail f2)) = nat ?rem"
        using pad av by linarith
      then have "tell (snd (read ?rem f2)) = tell f1 + sz"
        using pad f12 by (simp add: snd_read_nonneg tell_def)
      with False pad show ?thesis
        by (simp add: read_vno_def Let_def)
    next
      case nopad: False
      with room(2) have "?rem = 0" by simp
      then have "tell f2 = tell f1 + sz"
        by simp
      with False nopad show ?thesis
        by (simp add: read_vno_def Let_def)
    qed
  qed
  then obtain f3 where
    v: "read_vno f2 sz (tell f1) =
      Inr (if 4 \<le> ?rem then Some (be_int (take 4 (avail f2))) else None, f3)"
    and t: "tell f3 = tell f1 + sz"
    by blast
  have "load_entry self f =
      Inr (\<lparr>principal = p, timestamp = t, vno8 = v8, key = k,
            vno = (if 4 \<le> ?rem then Some (be_int (take 4 (avail f2))) else None)\<rparr>, f3)"
    using g sz r v by (simp add: load_entry_def skip_holes_nonneg Let_def)
  with t show ?thesis by blast
qed

text \<open>
  Claim C9 as stated, for every entry with a positive declared size, fails on the
  entry of claim C10: the size field below reads \<open>1\<close>, the fields consume 22 bytes, and
  the read position ends 22 bytes past the size field (offset 26), not 1.
\<close>

theorem declared_size_respected_counterexample:
  "get_entry_size \<lparr>content = overlong_example, pos = 0\<rparr> =
     Inr (1, \<lparr>content = overlong_example, pos = 4\<rparr>) \<and>
   load_entry (after_version 0x0502) \<lparr>content = overlong_example, pos = 0\<rparr> =
     Inr (\<lparr>principal = \<lparr>name_type = Some 1, value = ''a@R''\<rparr>, timestamp = 7, vno8 = 2,
           key = \<lparr>type = 18, etype = None, val = ''k''\<rparr>, vno = None\<rparr>,
          \<lparr>content = overlong_example, pos = 26\<rparr>)"
  by code_simp

text \<open>
  A declared size of 28: 22 bytes of fields, the key version \<open>3\<close>, and two bytes that
  are dropped.
\<close>

theorem declared_size_respected_witness:
  "\<exists>f3. load_entry (after_version 0x0502) \<lparr>content = padded_example, pos = 0\<rparr> =
      Inr (\<lparr>principal = \<lparr>name_type = Some 1, value = ''a@R''\<rparr>, timestamp = 7, vno8 = 2,
            key = \<lparr>type = 18, etype = None, val = ''k''\<rparr>, vno = Some 3\<rparr>, f3) \<and>
      tell f3 = 4 + 28"
proof -
  have 1: "get_entry_size \<lparr>content = padded_example, pos = 0\<rparr> =
      Inr (28, \<lparr>content = padded_example, pos = 4\<rparr>)"
    by code_simp
  have 2: "(0::int) < 28" by simp
  have 3: "read_fields (after_version 0x0502) \<lparr>content = padded_example, pos = 4\<rparr> =
      Inr ((\<lparr>name_type = Some 1, value = ''a@R''\<rparr>, 7, 2,
            \<lparr>type = 18, etype = None, val = ''k''\<rparr>),
           \<lparr>content = padded_example, pos = 26\<rparr>)"
    by code_simp
  have 4: "tell \<lparr>content = padded_example, pos = 26\<rparr>
             - tell \<lparr>content = padded_example, pos = 4\<rparr> \<le> 28"
    by (simp add: tell_def)
  have 5: "tell \<lparr>content = padded_example, pos = 4\<rparr> + 28
             \<le> int (length (content \<lparr>content = padded_example, pos = 0\<rparr>))"
    by code_simp
  have 6: "be_int (take 4 (avail \<lparr>content = padded_example, pos = 26\<rparr>)) = 3"
    by code_simp
  show ?thesis
    using declared_size_respected [OF 1 2 3 4 5] by (simp add: tell_def 6)
qed

section \<open>Properties of the shared decoder\<close>

subsection \<open>C4: an array whose length field promises too much\<close>

text \<open>
  Claim C4, as amended.  When the length field of an array declares more bytes than
  remain in the file, \<open>_read_array\<close> raises nothing: it returns the bytes that remain, a
  payload shorter than declared, and leaves the read position at the end of the file.
\<close>

theorem read_array_short_payload:
  assumes "read_struct (array self) f = Inr (len, f1)"
    and "int (length (avail f1)) < len"
  shows "read_array self f = Inr (avail f1, f1\<lparr>pos := pos f1 + length (avail f1)\<rparr>) \<and>
         int (length (avail f1)) < len"
  using assms by (simp add: read_array_def read_def Let_def)

text \<open>
  Claim C4 as stated fails: the length field below declares 5 bytes, 2 remain, and the
  decode returns those 2 bytes without an error.
\<close>

theorem read_array_short_payload_counterexample:
  "read_array (after_version 0x0502)
     \<lparr>content = [CHR 0x00, CHR 0x05, CHR ''a'', CHR ''b''], pos = 0\<rparr> =
   Inr (''ab'', \<lparr>content = [CHR 0x00, CHR 0x05, CHR ''a'', CHR ''b''], pos = 4\<rparr>)"
  by code_simp

text \<open>The amended claim at the same input.\<close>

theorem read_array_short_payload_witness:
  "read_array (after_version 0x0502)
     \<lparr>content = [CHR 0x00, CHR 0x05, CHR ''a'', CHR ''b''], pos = 0\<rparr> =
   Inr (''ab'', \<lparr>content = [CHR 0x00, CHR 0x05, CHR ''a'', CHR ''b''], pos = 4\<rparr>) \<and>
   int (length ''ab'') < 5"
proof -
  have 1: "read_struct (array (after_version 0x0502))
      \<lparr>content = [CHR 0x00, CHR 0x05, CHR ''a'', CHR ''b''], pos = 0\<rparr> =
      Inr (5, \<lparr>content = [CHR 0x00, CHR 0x05, CHR ''a'', CHR ''b''], pos = 2\<rparr>)"
    by code_simp
  have 2: "int (length (avail \<lparr>content = [CHR 0x00, CHR 0x05, CHR ''a'', CHR ''b''], pos = 2\<rparr>)) < 5"
    by code_simp
  show ?thesis
    using read_array_short_payload [OF 1 2] by (simp add: avail_def)
qed

section \<open>Properties of filtering\<close>

lemma remove_each_keeps_head:
  assumes "remove_each ks ys = Inr zs" and "\<forall>k\<in>set ks. k \<noteq> x"
  shows "remove_each ks (x # ys) = Inr (x # zs)"
  using assms
proof (induction ks arbitrary: ys)
  case Nil
  then show ?case by simp
next
  case (Cons k ks)
  from Cons.prems(1) obtain ys' where
    r: "remove k ys = Inr ys'" and e: "remove_each ks ys' = Inr zs"
    by (auto split: sum.splits)
  from Cons.prems(2) have "x \<noteq> k" "\<forall>k\<in>set ks. k \<noteq> x"
    by auto
  with Cons.IH [OF e] r show ?case
    by simp
qed

lemma remove_each_complement:
  "remove_each (filter (\<lambda>k. \<not> P k) xs) xs = Inr (filter P xs)"
proof (induction xs)
  case Nil
  show ?case by simp
next
  case (Cons x xs)
  show ?case
  proof (cases "P x")
    case True
    then have "\<forall>k\<in>set (filter (\<lambda>k. \<not> P k) xs). k \<noteq> x"
      by auto
    from remove_each_keeps_head [OF Cons.IH this] True show ?thesis
      by simp
  next
    case False
    with Cons.IH show ?thesis by simp
  qed
qed

text \<open>
  Claim C7.  After \<open>filter\<close>, the container holds exactly the entries whose principal
  value the pattern matches, in their original order (and no \<open>remove\<close> fails).  In
  particular, for entries with the principals \<open>host/a@R\<close>, \<open>host/b@R\<close> and \<open>user@R\<close> and a
  pattern that matches the first two and not the third, as \<open>host/.*\<close> does, the first
  two remain, in that order.
\<close>

theorem filter_keeps_matching:
  "filter_keytab match self = Inr (filter (\<lambda>k. match (value (principal k))) self) \<and>
   (value (principal a) = ''host/a@R'' \<and> value (principal b) = ''host/b@R'' \<and>
    value (principal u) = ''user@R'' \<and>
    match ''host/a@R'' \<and> match ''host/b@R'' \<and> \<not> match ''user@R'' \<longrightarrow>
    filter_keytab match [a, b, u] = Inr [a, b])"
proof -
  have *: "filter_keytab m xs = Inr (filter (\<lambda>k. m (value (principal k))) xs)" for m xs
  proof -
    let ?P = "\<lambda>k. m (value (principal k))"
    have "filter (\<lambda>key. key \<notin> set (filter ?P xs)) xs = filter (\<lambda>k. \<not> ?P k) xs"
      by (rule filter_cong) auto
    moreover have "filter_keytab m xs =
        remove_each (filter (\<lambda>key. key \<notin> set (filter ?P xs)) xs) xs"
      by (simp only: filter_keytab_def Let_def)
    ultimately show ?thesis
      by (simp only: remove_each_complement)
  qed
  show ?thesis
    by (simp add: *)
qed

text \<open>
  With the matcher of the pattern \<open>host/.*\<close>, which accepts the strings that start
  with \<open>host/\<close>.
\<close>

theorem filter_keeps_matching_witness:
  "filter_keytab (\<lambda>s. take 5 s = ''host/'')
     [\<lparr>principal = \<lparr>name_type = Some 1, value = ''host/a@R''\<rparr>, timestamp = 7, vno8 = 2,
        key = \<lparr>type = 18, etype = None, val = ''k''\<rparr>, vno = None\<rparr>,
      \<lparr>principal = \<lparr>name_type = Some 1, value = ''host/b@R''\<rparr>, timestamp = 7, vno8 = 2,
        key = \<lparr>type = 18, etype = None, val = ''k''\<rparr>, vno = None\<rparr>,
      \<lparr>principal = \<lparr>name_type = Some 1, value = ''user@R''\<rparr>, timestamp = 7, vno8 = 2,
        key = \<lparr>type = 18, etype = None, val = ''k''\<rparr>, vno = None\<rparr>] =
   Inr
     [\<lparr>principal = \<lparr>name_type = Some 1, value = ''host/a@R''\<rparr>, timestamp = 7, vno8 = 2,
        key = \<lparr>type = 18, etype = None, val = ''k''\<rparr>, vno = None\<rparr>,
      \<lparr>principal = \<lparr>name_type = Some 1, value = ''host/b@R''\<rparr>, timestamp = 7, vno8 = 2,
        key = \<lparr>type = 18, etype = None, val = ''k''\<rparr>, vno = None\<rparr>]"
  using filter_keeps_matching [of "\<lambda>s. take 5 s = ''host/''" "[]"
      "\<lparr>principal = \<lparr>name_type = Some 1, value = ''host/a@R''\<rparr>, timestamp = 7, vno8 = 2,
        key = \<lparr>type = 18, etype = None, val = ''k''\<rparr>, vno = None\<rparr>"
      "\<lparr>principal = \<lparr>name_type = Some 1, value = ''host/b@R''\<rparr>, timestamp = 7, vno8 = 2,
        key = \<lparr>type = 18, etype = None, val = ''k''\<rparr>, vno = None\<rparr>"
      "\<lparr>principal = \<lparr>name_type = Some 1, value = ''user@R''\<rparr>, timestamp = 7, vno8 = 2,
        key = \<lparr>type = 18, etype = None, val = ''k''\<rparr>, vno = None\<rparr>"]
  by simp

section \<open>Properties of the credential cache\<close>

lemma split_not_Nil [simp]: "split c s \<noteq> []"
  by (induction s) (auto split: list.splits)

lemma hd_split: "hd (split c s) = takeWhile (\<lambda>x. x \<noteq> c) s"
proof (induction s)
  case Nil
  show ?case by simp
next
  case (Cons x xs)
  then show ?case
    by (cases "split c xs") auto
qed

definition single_component_tgt :: credential where
  "single_component_tgt =
     \<lparr>client = \<lparr>name_type = Some 1, value = ''user@R''\<rparr>,
      server = \<lparr>name_type = Some 1, value = ''krbtgt@R''\<rparr>,
      cred_key = \<lparr>type = 18, etype = None, val = ''k''\<rparr>,
      times = \<lparr>authtime = 1, starttime = 2, endtime = 5, renew_till = 9\<rparr>,
      is_skey = 0, tktflags = 0, addrs = [], authdata = [], ticket = ''t'', ticket2 = []\<rparr>"

text \<open>
  Claim C6, as amended.  \<open>is_tgt_expired\<close> looks at the first entry whose server
  principal value, read up to its first \<open>/\<close> (the whole value when it holds no \<open>/\<close>),
  is \<open>krbtgt\<close>, and answers whether its \<open>endtime\<close> is at most \<open>now + secs\<close>; when no entry
  is of that kind the answer is \<open>None\<close>, which is neither \<open>True\<close> nor \<open>False\<close>.
\<close>

theorem tgt_expiry:
  "is_tgt_expired now self secs =
     (case find (\<lambda>k. takeWhile (\<lambda>x. x \<noteq> CHR ''/'') (value (server k)) = ''krbtgt'') self of
        None \<Rightarrow> None
      | Some k \<Rightarrow> Some (endtime (times k) \<le> now + secs))"
  by (induction self) (simp_all add: hd_split Let_def)

text \<open>
  Claim C6 as stated, with the primary component of the server principal, fails for
  a principal whose only component is \<open>krbtgt\<close>: the value \<open>krbtgt@R\<close> holds no \<open>/\<close>, so
  the source compares the whole value with \<open>krbtgt\<close>.  The entry below has the primary
  component \<open>krbtgt\<close> and the \<open>endtime\<close> 5; at time 100 the answer is \<open>None\<close>, not
  \<open>True\<close>.
\<close>

theorem tgt_expiry_counterexample:
  "value (server single_component_tgt) = ''krbtgt@R'' \<and>
   hd (split CHR ''/'' (hd (split CHR ''@'' (value (server single_component_tgt))))) = ''krbtgt'' \<and>
   endtime (times single_component_tgt) = 5 \<and>
   is_tgt_expired 100 [single_component_tgt] 0 = None"
  by code_simp

section \<open>Byte layouts\<close>

text \<open>
  \<open>advance n f\<close> is the file object \<open>f\<close> with the read position moved on by \<open>n\<close>
  bytes; \<open>array_bytes st a\<close> is a length field in the format \<open>st\<close> followed by the
  payload \<open>a\<close>.
\<close>

definition advance :: "nat \<Rightarrow> stream \<Rightarrow> stream" where
  "advance n f = f\<lparr>pos := pos f + n\<rparr>"

definition array_bytes :: "struct \<Rightarrow> string \<Rightarrow> string" where
  "array_bytes st a = be_bytes (struct_size st) (int (length a)) @ a"

lemma length_be_bytes [simp]: "length (be_bytes k n) = k"
  by (induction k arbitrary: n) simp_all

lemma be_int_snoc: "be_int (d @ [c]) = be_int d * 256 + of_char c"
  by (simp add: be_int_def)

lemma of_char_int_nonneg: "(0::int) \<le> of_char c"
proof -
  have "(of_char c :: int) = int (of_char c)"
    by (simp only: of_nat_of_char)
  then show ?thesis by simp
qed

lemma be_int_nonneg: "0 \<le> be_int d"
proof (induction d rule: rev_induct)
  case Nil
  show ?case by (simp add: be_int_def)
next
  case (snoc c d)
  then show ?case
    using of_char_int_nonneg [of c] by (simp add: be_int_snoc)
qed

lemma be_int_be_bytes: "0 \<le> n \<Longrightarrow> n < 256 ^ k \<Longrightarrow> be_int (be_bytes k n) = n"
proof (induction k arbitrary: n)
  case 0
  then show ?case by (simp add: be_int_def)
next
  case (Suc k)
  define M :: int where "M = 256 ^ k"
  have "n < 256 * M"
    using Suc.prems(2) by (simp add: M_def)
  then have "n div 256 < M"
    by arith
  then have "0 \<le> n div 256" "n div 256 < 256 ^ k"
    using Suc.prems(1) by (simp_all add: M_def)
  then have "be_int (be_bytes k (n div 256)) = n div 256"
    by (rule Suc.IH)
  then show ?case
    by (simp add: be_int_snoc)
qed

lemma avail_advance: "avail (advance n f) = drop n (avail f)"
  by (simp add: avail_def advance_def add.commute)

lemma advance_advance [simp]: "advance m (advance n f) = advance (n + m) f"
  by (simp add: advance_def add.assoc)

lemma advance_0 [simp]: "advance 0 f = f"
  by (simp add: advance_def)

lemma read_prefix:
  assumes "avail f = d @ rest" and "n = int (length d)"
  shows "read n f = (d, advance (length d) f)"
  using assms by (simp add: read_def Let_def advance_def)

lemma avail_after:
  assumes "avail f = d @ rest"
  shows "avail (advance (length d) f) = rest"
  using assms by (simp add: avail_advance)

lemma unpack_be_bytes:
  assumes "0 \<le> n" and "n \<le> struct_max st"
  shows "unpack st (be_bytes (struct_size st) n) = Inr n"
proof -
  have "n < 256 ^ struct_size st"
    using assms(2) by (cases st) simp_all
  then have b: "be_int (be_bytes (struct_size st) n) = n"
    using assms(1) by (simp add: be_int_be_bytes)
  have "st = Int32 \<Longrightarrow> n < 2 ^ 31"
    using assms(2) by simp
  then show ?thesis
    by (auto simp: unpack_def b)
qed

lemma read_struct_bytes:
  assumes "avail f = be_bytes (struct_size st) n @ rest" and "0 \<le> n" and "n \<le> struct_max st"
  shows "read_struct st f = Inr (n, advance (struct_size st) f)"
proof -
  have "read (int (struct_size st)) f =
      (be_bytes (struct_size st) n, advance (length (be_bytes (struct_size st) n)) f)"
    by (rule read_prefix [OF assms(1)]) simp
  then show ?thesis
    by (simp add: read_struct_def unpack_be_bytes [OF assms(2,3)])
qed

lemma read_array_bytes:
  assumes "avail f = array_bytes (array self) a @ rest"
    and "int (length a) \<le> struct_max (array self)"
  shows "read_array self f = Inr (a, advance (length (array_bytes (array self) a)) f)"
proof -
  let ?k = "struct_size (array self)"
  have 1: "avail f = be_bytes ?k (int (length a)) @ (a @ rest)"
    using assms(1) by (simp add: array_bytes_def)
  have 2: "read_struct (array self) f = Inr (int (length a), advance ?k f)"
    by (rule read_struct_bytes [OF 1 _ assms(2)]) simp
  have "avail (advance ?k f) = a @ rest"
    using avail_after [OF 1] by simp
  then have "read (int (length a)) (advance ?k f) = (a, advance (length a) (advance ?k f))"
    by (rule read_prefix) simp
  then show ?thesis
    by (simp add: read_array_def 2 array_bytes_def)
qed

lemma read_arrays_bytes:
  assumes "avail f = concat (map (array_bytes (array self)) as) @ rest"
    and "\<forall>a\<in>set as. int (length a) \<le> struct_max (array self)"
  shows "read_arrays self (length as) f =
           Inr (as, advance (length (concat (map (array_bytes (array self)) as))) f)"
  using assms
proof (induction as arbitrary: f)
  case Nil
  then show ?case by simp
next
  case (Cons a as)
  let ?d = "array_bytes (array self) a"
  have 1: "avail f = ?d @ (concat (map (array_bytes (array self)) as) @ rest)"
    using Cons.prems(1) by simp
  have 2: "read_array self f = Inr (a, advance (length ?d) f)"
    by (rule read_array_bytes [OF 1]) (use Cons.prems(2) in simp)
  have 3: "read_arrays self (length as) (advance (length ?d) f) =
      Inr (as, advance (length (concat (map (array_bytes (array self)) as)))
                 (advance (length ?d) f))"
    by (rule Cons.IH [OF avail_after [OF 1]]) (use Cons.prems(2) in simp)
  show ?case
    by (simp add: 2 3)
qed

section \<open>C1: version gating of the principal decoder\<close>

text \<open>
  The decoding orders the specification describes, with the widths written out.  An
  array is a length field of the given format followed by that many bytes.  A read
  that fails in the leading fields of a principal (the name type in front of the
  count, and the count) is the end-of-entries signal; a failed read of a later
  fixed-width field is a \<open>struct.error\<close>.

  \<^item> \<open>principal_name_type_first\<close>: u32 name type, then the component count, the realm
    and the components, every length field 4 bytes wide.
  \<^item> \<open>principal_name_type_last\<close>: the component count, the realm and the components,
    every length field 2 bytes wide, then the u32 name type.
  \<^item> \<open>principal_without_name_type\<close>: as the previous one, but no name type is read.
\<close>

definition read_array_of :: "struct \<Rightarrow> stream \<Rightarrow> error + (string \<times> stream)" where
  "read_array_of st f =
     (case read_struct st f of
        Inl e \<Rightarrow> Inl e
      | Inr (len, f1) \<Rightarrow> Inr (read len f1))"

fun read_arrays_of :: "struct \<Rightarrow> nat \<Rightarrow> stream \<Rightarrow> error + (string list \<times> stream)" where
  "read_arrays_of st 0 f = Inr ([], f)"
| "read_arrays_of st (Suc n) f =
     (case read_array_of st f of
        Inl e \<Rightarrow> Inl e
      | Inr (a, f1) \<Rightarrow>
          (case read_arrays_of st n f1 of
             Inl e \<Rightarrow> Inl e
           | Inr (as, f2) \<Rightarrow> Inr (a # as, f2)))"

definition principal_name_type_first :: "stream \<Rightarrow> error + (principal \<times> stream)" where
  "principal_name_type_first f =
     (case read_struct Uint32 f of
        Inl e \<Rightarrow> Inl EOFError
      | Inr (nt, f1) \<Rightarrow>
          (case read_struct Uint32 f1 of
             Inl e \<Rightarrow> Inl EOFError
           | Inr (n, f2) \<Rightarrow>
               (case read_array_of Uint32 f2 of
                  Inl e \<Rightarrow> Inl e
                | Inr (realm, f3) \<Rightarrow>
                    (case read_arrays_of Uint32 (nat n) f3 of
                       Inl e \<Rightarrow> Inl e
                     | Inr (components, f4) \<Rightarrow>
                         Inr (\<lparr>name_type = Some nt,
                               value = join ''/'' components @ ''@'' @ realm\<rparr>, f4)))))"

definition principal_name_type_last :: "stream \<Rightarrow> error + (principal \<times> stream)" where
  "principal_name_type_last f =
     (case read_struct Uint16 f of
        Inl e \<Rightarrow> Inl EOFError
      | Inr (n, f1) \<Rightarrow>
          (case read_array_of Uint16 f1 of
             Inl e \<Rightarrow> Inl e
           | Inr (realm, f2) \<Rightarrow>
               (case read_arrays_of Uint16 (nat n) f2 of
                  Inl e \<Rightarrow> Inl e
                | Inr (components, f3) \<Rightarrow>
                    (case read_struct Uint32 f3 of
                       Inl e \<Rightarrow> Inl e
                     | Inr (nt, f4) \<Rightarrow>
                         Inr (\<lparr>name_type = Some nt,
                               value = join ''/'' components @ ''@'' @ realm\<rparr>, f4)))))"

definition principal_without_name_type :: "stream \<Rightarrow> error + (principal \<times> stream)" where
  "principal_without_name_type f =
     (case read_struct Uint16 f of
        Inl e \<Rightarrow> Inl EOFError
      | Inr (n, f1) \<Rightarrow>
          (case read_array_of Uint16 f1 of
             Inl e \<Rightarrow> Inl e
           | Inr (realm, f2) \<Rightarrow>
               (case read_arrays_of Uint16 (nat n) f2 of
                  Inl e \<Rightarrow> Inl e
                | Inr (components, f3) \<Rightarrow>
                    Inr (\<lparr>name_type = None,
                          value = join ''/'' components @ ''@'' @ realm\<rparr>, f3))))"

lemma read_array_of_array: "read_array self f = read_array_of (array self) f"
  by (simp add: read_array_def read_array_of_def)

lemma read_arrays_of_array: "read_arrays self n f = read_arrays_of (array self) n f"
  by (induction n arbitrary: f) (simp_all add: read_array_of_array split: sum.split prod.split)

definition legacy_principal_example :: string where
  "legacy_principal_example =
     [CHR 0x00, CHR 0x01, CHR 0x00, CHR 0x01, CHR ''R'', CHR 0x00, CHR 0x01, CHR ''a'',
      CHR 0x00, CHR 0x00, CHR 0x00, CHR 0x01]"

text \<open>
  Claim C1, as amended.  For every input stream, after \<open>load\<close> has read the version tag
  \<open>v\<close>: for \<open>0x0504\<close> a principal is decoded with 4-byte length fields and the name type
  in front of the component count; for \<open>0x0502\<close> with 2-byte length fields and the name
  type after the components; for every other tag (\<open>0x0501\<close>, \<open>0x0503\<close>) with 2-byte
  length fields and no name type at all.
\<close>

theorem version_gating:
  "read_principal (after_version v) f =
     (if v = 0x0504 then principal_name_type_first f
      else if v = 0x0502 then principal_name_type_last f
      else principal_without_name_type f)"
proof -
  consider (v4) "v = 0x0504" | (v2) "v = 0x0502" | (other) "v \<noteq> 0x0504" "v \<noteq> 0x0502"
    by blast
  then show ?thesis
  proof cases
    case v4
    then show ?thesis
      by (simp add: read_principal_def read_principal_head_def principal_name_type_first_def
          read_array_of_array read_arrays_of_array after_version_def
          split: sum.split prod.split)
  next
    case v2
    then show ?thesis
      by (simp add: read_principal_def read_principal_head_def principal_name_type_last_def
          read_array_of_array read_arrays_of_array after_version_def
          split: sum.split prod.split)
  next
    case other
    then show ?thesis
      by (simp add: read_principal_def read_principal_head_def principal_without_name_type_def
          read_array_of_array read_arrays_of_array after_version_def
          split: sum.split prod.split)
  qed
qed

text \<open>
  Claim C1 as stated fails for the tag \<open>0x0501\<close> (and \<open>0x0503\<close>): the guard of the
  trailing name type is \<open>version == 0x0502\<close>.  On the twelve bytes below, a count of
  one, the realm \<open>R\<close>, the component \<open>a\<close> and four more bytes, the decoder stops after
  eight bytes with no name type, where the order of the claim reads all twelve.
\<close>

theorem version_gating_counterexample:
  "read_principal (after_version 0x0501) \<lparr>content = legacy_principal_example, pos = 0\<rparr> =
     Inr (\<lparr>name_type = None, value = ''a@R''\<rparr>,
          \<lparr>content = legacy_principal_example, pos = 8\<rparr>) \<and>
   principal_name_type_last \<lparr>content = legacy_principal_example, pos = 0\<rparr> =
     Inr (\<lparr>name_type = Some 1, value = ''a@R''\<rparr>,
          \<lparr>content = legacy_principal_example, pos = 12\<rparr>)"
  by code_simp

section \<open>The encoder against the decoder\<close>

subsection \<open>What \<open>pack\<close> and \<open>_make_array\<close> write is what the decoder reads\<close>

lemma pack_nonneg:
  assumes "pack st n = Inr d" and "0 \<le> n"
  shows "d = be_bytes (struct_size st) n" and "n \<le> struct_max st"
proof -
  from assms(1) have m: "n \<le> struct_max st"
    by (auto simp: pack_def split: if_splits)
  then have "n < 2 ^ (8 * struct_size st)"
    by (cases st) simp_all
  then have "n mod 2 ^ (8 * struct_size st) = n"
    using assms(2) by simp
  with assms(1) show "d = be_bytes (struct_size st) n"
    by (auto simp: pack_def split: if_splits)
  show "n \<le> struct_max st" by (rule m)
qed

lemma pack_unsigned_nonneg:
  assumes "pack st n = Inr d" and "st \<noteq> Int32"
  shows "0 \<le> n"
  using assms by (cases st) (auto simp: pack_def split: if_splits)

lemma read_struct_pack:
  assumes "pack st n = Inr d" and "0 \<le> n" and "avail f = d @ rest"
  shows "read_struct st f = Inr (n, advance (length d) f)"
proof -
  note p = pack_nonneg [OF assms(1,2)]
  have "read_struct st f = Inr (n, advance (struct_size st) f)"
    by (rule read_struct_bytes [OF _ assms(2) p(2)]) (use assms(3) p(1) in simp)
  then show ?thesis
    by (simp add: p(1))
qed

lemma make_array_Inr:
  assumes "make_array self a = Inr d"
  shows "d = array_bytes (array self) a" and "int (length a) \<le> struct_max (array self)"
proof -
  from assms obtain l where l: "pack (array self) (int (length a)) = Inr l" and d: "d = l @ a"
    by (auto simp: make_array_def split: sum.splits)
  from pack_nonneg [OF l] show "d = array_bytes (array self) a"
    and "int (length a) \<le> struct_max (array self)"
    by (simp_all add: d array_bytes_def)
qed

lemma read_array_make_array:
  assumes "make_array self a = Inr d" and "avail f = d @ rest"
  shows "read_array self f = Inr (a, advance (length d) f)"
  using read_array_bytes [of f self a rest] make_array_Inr [OF assms(1)] assms(2)
  by simp

lemma make_arrays_Inr:
  assumes "make_arrays self cs = Inr d"
  shows "d = concat (map (array_bytes (array self)) cs) \<and>
         (\<forall>c\<in>set cs. int (length c) \<le> struct_max (array self))"
  using assms
proof (induction cs arbitrary: d)
  case Nil
  then show ?case by simp
next
  case (Cons c cs)
  from Cons.prems obtain d1 d2 where
    1: "make_array self c = Inr d1" and 2: "make_arrays self cs = Inr d2" and d: "d = d1 @ d2"
    by (auto split: sum.splits)
  from make_array_Inr [OF 1] Cons.IH [OF 2] d show ?case
    by simp
qed

lemma read_arrays_make_arrays:
  assumes "make_arrays self cs = Inr d" and "avail f = d @ rest"
  shows "read_arrays self (length cs) f = Inr (cs, advance (length d) f)"
  using read_arrays_bytes [of f self cs rest] make_arrays_Inr [OF assms(1)] assms(2)
  by simp

lemma join_split: "join [c] (split c s) = s"
proof (induction s)
  case Nil
  show ?case by simp
next
  case (Cons x xs)
  show ?case
  proof (cases "x = c")
    case True
    obtain p ps where "split c xs = p # ps"
      by (cases "split c xs") (simp_all add: split_not_Nil)
    with Cons True show ?thesis by simp
  next
    case False
    obtain p ps where s: "split c xs = p # ps"
      by (cases "split c xs") (simp_all add: split_not_Nil)
    with Cons have "join [c] (p # ps) = xs" by simp
    then have "join [c] ((x # p) # ps) = x # xs"
      by (cases ps) simp_all
    with False s show ?thesis by simp
  qed
qed

lemma get_entry_size_pack:
  assumes "pack Int32 n = Inr d" and "0 \<le> n" and "avail f = d @ rest"
  shows "get_entry_size f = Inr (n, advance (length d) f)"
proof -
  note p = pack_nonneg [OF assms(1,2)]
  have l: "length d = 4"
    by (simp add: p(1))
  have r: "read 4 f = (d, advance (length d) f)"
    by (rule read_prefix [OF assms(3)]) (simp add: l)
  have "unpack Int32 d = Inr n"
    using unpack_be_bytes [OF assms(2) p(2)] by (simp add: p(1))
  then show ?thesis
    by (simp add: get_entry_size_def r l)
qed

subsection \<open>The fields of an entry in the layout of version \<open>0x0502\<close>\<close>

lemma read_keyblock_pack:
  assumes v: "\<not> version self > 0x0502" "array self = Uint16"
    and d7: "pack Uint16 ty = Inr d7"
    and d8: "make_array self kv = Inr d8"
    and av: "avail f = d7 @ d8 @ rest"
  shows "read_keyblock self f =
           Inr (\<lparr>type = ty, etype = None, val = kv\<rparr>, advance (length d7 + length d8) f)"
proof -
  define f1 where "f1 = advance (length d7) f"
  have ty: "0 \<le> ty"
    by (rule pack_unsigned_nonneg [OF d7]) simp
  have 1: "read_struct Uint16 f = Inr (ty, f1)"
    unfolding f1_def by (rule read_struct_pack [OF d7 ty av])
  have a1: "avail f1 = d8 @ rest"
    unfolding f1_def by (rule avail_after [OF av])
  have "read_array self f1 = Inr (kv, advance (length d8) f1)"
    by (rule read_array_make_array [OF d8 a1])
  then have 2: "(case read_struct Uint16 f1 of Inl e \<Rightarrow> Inl e | Inr (len, g) \<Rightarrow> Inr (read len g)) =
      Inr (kv, advance (length d8) f1)"
    by (simp add: read_array_def v(2))
  have "read_keyblock self f = Inr (\<lparr>type = ty, etype = None, val = kv\<rparr>, advance (length d8) f1)"
    using 2 v(1) by (auto simp: read_keyblock_def 1 split: sum.splits prod.splits)
  then show ?thesis
    by (simp add: f1_def)
qed

lemma read_principal_pack:
  assumes v: "version self = 0x0502" "array self = Uint16"
    and d1: "pack Uint16 (int (length cs)) = Inr d1"
    and d2: "make_array self realm = Inr d2"
    and d3: "make_arrays self cs = Inr d3"
    and d4: "pack Uint32 nt = Inr d4"
    and av: "avail f = d1 @ d2 @ d3 @ d4 @ rest"
  shows "read_principal self f =
           Inr (\<lparr>name_type = Some nt, value = join ''/'' cs @ ''@'' @ realm\<rparr>,
                advance (length d1 + length d2 + length d3 + length d4) f)"
proof -
  define f1 where "f1 = advance (length d1) f"
  define f2 where "f2 = advance (length d2) f1"
  define f3 where "f3 = advance (length d3) f2"
  define f4 where "f4 = advance (length d4) f3"
  have nt: "0 \<le> nt"
    by (rule pack_unsigned_nonneg [OF d4]) simp
  have 1: "read_struct Uint16 f = Inr (int (length cs), f1)"
    unfolding f1_def by (rule read_struct_pack [OF d1 _ av]) simp
  have a1: "avail f1 = d2 @ d3 @ d4 @ rest"
    unfolding f1_def by (rule avail_after [OF av])
  have 2: "read_array self f1 = Inr (realm, f2)"
    unfolding f2_def by (rule read_array_make_array [OF d2 a1])
  have a2: "avail f2 = d3 @ d4 @ rest"
    unfolding f2_def by (rule avail_after [OF a1])
  have 3: "read_arrays self (length cs) f2 = Inr (cs, f3)"
    unfolding f3_def by (rule read_arrays_make_arrays [OF d3 a2])
  have a3: "avail f3 = d4 @ rest"
    unfolding f3_def by (rule avail_after [OF a2])
  have 4: "read_struct Uint32 f3 = Inr (nt, f4)"
    unfolding f4_def by (rule read_struct_pack [OF d4 nt a3])
  have "read_principal self f =
      Inr (\<lparr>name_type = Some nt, value = join ''/'' cs @ ''@'' @ realm\<rparr>, f4)"
    by (simp add: read_principal_def read_principal_head_def v 1 2 3 4)
  then show ?thesis
    by (simp add: f4_def f3_def f2_def f1_def add.assoc)
qed

lemma read_fields_pack:
  assumes v: "version self = 0x0502" "array self = Uint16"
    and d1: "pack Uint16 (int (length cs)) = Inr d1"
    and d2: "make_array self realm = Inr d2"
    and d3: "make_arrays self cs = Inr d3"
    and d4: "pack Uint32 nt = Inr d4"
    and d5: "pack Uint32 t = Inr d5"
    and d6: "pack Char v8 = Inr d6"
    and d7: "pack Uint16 ty = Inr d7"
    and d8: "make_array self kv = Inr d8"
    and av: "avail f = d1 @ d2 @ d3 @ d4 @ d5 @ d6 @ d7 @ d8 @ rest"
  shows "read_fields self f =
           Inr ((\<lparr>name_type = Some nt, value = join ''/'' cs @ ''@'' @ realm\<rparr>, t, v8,
                 \<lparr>type = ty, etype = None, val = kv\<rparr>),
                advance (length (d1 @ d2 @ d3 @ d4 @ d5 @ d6 @ d7 @ d8)) f)"
proof -
  define f4 where "f4 = advance (length d1 + length d2 + length d3 + length d4) f"
  define f5 where "f5 = advance (length d5) f4"
  define f6 where "f6 = advance (length d6) f5"
  define f8 where "f8 = advance (length d7 + length d8) f6"
  have t: "0 \<le> t"
    by (rule pack_unsigned_nonneg [OF d5]) simp
  have v8: "0 \<le> v8"
    by (rule pack_unsigned_nonneg [OF d6]) simp
  have 1: "read_principal self f =
      Inr (\<lparr>name_type = Some nt, value = join ''/'' cs @ ''@'' @ realm\<rparr>, f4)"
    unfolding f4_def by (rule read_principal_pack [OF v d1 d2 d3 d4 av])
  have "avail f = (d1 @ d2 @ d3 @ d4) @ d5 @ d6 @ d7 @ d8 @ rest"
    using av by simp
  from avail_after [OF this] have a4: "avail f4 = d5 @ d6 @ d7 @ d8 @ rest"
    by (simp add: f4_def add.assoc)
  have 2: "read_time f4 = Inr (t, f5)"
    unfolding f5_def read_time_def by (rule read_struct_pack [OF d5 t a4])
  have a5: "avail f5 = d6 @ d7 @ d8 @ rest"
    unfolding f5_def by (rule avail_after [OF a4])
  have 3: "read_vno8 f5 = Inr (v8, f6)"
    unfolding f6_def read_vno8_def by (rule read_struct_pack [OF d6 v8 a5])
  have a6: "avail f6 = d7 @ d8 @ rest"
    unfolding f6_def by (rule avail_after [OF a5])
  have 4: "read_keyblock self f6 = Inr (\<lparr>type = ty, etype = None, val = kv\<rparr>, f8)"
    unfolding f8_def by (rule read_keyblock_pack [OF _ v(2) d7 d8 a6]) (simp add: v(1))
  have "read_fields self f =
      Inr ((\<lparr>name_type = Some nt, value = join ''/'' cs @ ''@'' @ realm\<rparr>, t, v8,
            \<lparr>type = ty, etype = None, val = kv\<rparr>), f8)"
    by (simp add: read_fields_def 1 2 3 4)
  then show ?thesis
    by (simp add: f8_def f6_def f5_def f4_def add.assoc)
qed

subsection \<open>C3: decoding what \<open>__write_entry\<close> wrote\<close>

lemma write_entry_Inr:
  assumes "write_entry self e = Inr bytes"
  obtains princ realm d1 d2 d3 nt d4 d5 d6 d7 d8 d9 h where
    "split CHR ''@'' (value (principal e)) = [princ, realm]"
    "pack Uint16 (int (length (split CHR ''/'' princ))) = Inr d1"
    "make_array self realm = Inr d2"
    "make_arrays self (split CHR ''/'' princ) = Inr d3"
    "name_type (principal e) = Some nt"
    "pack Uint32 nt = Inr d4"
    "pack Uint32 (timestamp e) = Inr d5"
    "pack Char (vno8 e) = Inr d6"
    "pack Uint16 (type (key e)) = Inr d7"
    "make_array self (val (key e)) = Inr d8"
    "(case vno e of None \<Rightarrow> Inr [] | Some v \<Rightarrow> if v = 0 then Inr [] else pack Uint32 v) = Inr d9"
    "pack Int32 (int (length (d1 @ d2 @ d3 @ d4 @ d5 @ d6 @ d7 @ d8 @ d9))) = Inr h"
    "bytes = h @ d1 @ d2 @ d3 @ d4 @ d5 @ d6 @ d7 @ d8 @ d9"
proof -
  from assms obtain princ realm where
    s: "split CHR ''@'' (value (principal e)) = [princ, realm]"
    by (auto simp: write_entry_def split: list.splits)
  note w = assms [unfolded write_entry_def s list.case Let_def]
  from w obtain d1 where d1: "pack Uint16 (int (length (split CHR ''/'' princ))) = Inr d1"
    by (cases "pack Uint16 (int (length (split CHR ''/'' princ)))") simp_all
  note w = w [unfolded d1 sum.case]
  from w obtain d2 where d2: "make_array self realm = Inr d2"
    by (cases "make_array self realm") simp_all
  note w = w [unfolded d2 sum.case]
  from w obtain d3 where d3: "make_arrays self (split CHR ''/'' princ) = Inr d3"
    by (cases "make_arrays self (split CHR ''/'' princ)") simp_all
  note w = w [unfolded d3 sum.case]
  from w obtain nt where nt: "name_type (principal e) = Some nt"
    by (cases "name_type (principal e)") simp_all
  note w = w [unfolded nt option.case]
  from w obtain d4 where d4: "pack Uint32 nt = Inr d4"
    by (cases "pack Uint32 nt") simp_all
  note w = w [unfolded d4 sum.case]
  from w obtain d5 where d5: "pack Uint32 (timestamp e) = Inr d5"
    by (cases "pack Uint32 (timestamp e)") simp_all
  note w = w [unfolded d5 sum.case]
  from w obtain d6 where d6: "pack Char (vno8 e) = Inr d6"
    by (cases "pack Char (vno8 e)") simp_all
  note w = w [unfolded d6 sum.case]
  from w obtain d7 where d7: "pack Uint16 (type (key e)) = Inr d7"
    by (cases "pack Uint16 (type (key e))") simp_all
  note w = w [unfolded d7 sum.case]
  from w obtain d8 where d8: "make_array self (val (key e)) = Inr d8"
    by (cases "make_array self (val (key e))") simp_all
  note w = w [unfolded d8 sum.case]
  let ?v = "case vno e of None \<Rightarrow> Inr [] | Some v \<Rightarrow> if v = 0 then Inr [] else pack Uint32 v"
  from w obtain d9 where d9: "?v = Inr d9"
    by (cases ?v) simp_all
  note w = w [unfolded d9 sum.case]
  from w obtain h where
    h: "pack Int32 (int (length (d1 @ d2 @ d3 @ d4 @ d5 @ d6 @ d7 @ d8 @ d9))) = Inr h"
    by (cases "pack Int32 (int (length (d1 @ d2 @ d3 @ d4 @ d5 @ d6 @ d7 @ d8 @ d9)))") simp_all
  from w [unfolded h sum.case] have b: "bytes = h @ d1 @ d2 @ d3 @ d4 @ d5 @ d6 @ d7 @ d8 @ d9"
    by simp
  from s d1 d2 d3 nt d4 d5 d6 d7 d8 d9 h b show thesis
    by (rule that)
qed

lemma read_keyblock_etype:
  assumes "read_keyblock self f = Inr (k, f')" and "\<not> version self > 0x0502"
  shows "etype k = None"
  using assms by (auto simp: read_keyblock_def split: sum.splits prod.splits)

lemma load_entry_etype:
  assumes "load_entry self f = Inr (e, f')" and "\<not> version self > 0x0502"
  shows "etype (key e) = None"
proof -
  from assms(1) obtain g p t v8 k g' where
    r: "read_fields self g = Inr ((p, t, v8, k), g')" and k: "key e = k"
    by (auto simp: load_entry_def Let_def split: sum.splits prod.splits)
  from r obtain h h' where "read_keyblock self h = Inr (k, h')"
    by (auto simp: read_fields_def split: sum.splits prod.splits)
  from read_keyblock_etype [OF this assms(2)] k show ?thesis
    by simp
qed

definition zero_vno_example :: string where
  "zero_vno_example =
     [CHR 0x00, CHR 0x00, CHR 0x00, CHR 0x1A,
      CHR 0x00, CHR 0x01, CHR 0x00, CHR 0x01, CHR ''R'', CHR 0x00, CHR 0x01, CHR ''a'',
      CHR 0x00, CHR 0x00, CHR 0x00, CHR 0x01,
      CHR 0x00, CHR 0x00, CHR 0x00, CHR 0x07,
      CHR 0x02,
      CHR 0x00, CHR 0x12, CHR 0x00, CHR 0x01, CHR ''k'',
      CHR 0x00, CHR 0x00, CHR 0x00, CHR 0x00]"

definition reencoded_example :: string where
  "reencoded_example =
     [CHR 0x00, CHR 0x00, CHR 0x00, CHR 0x16,
      CHR 0x00, CHR 0x01, CHR 0x00, CHR 0x01, CHR ''R'', CHR 0x00, CHR 0x01, CHR ''a'',
      CHR 0x00, CHR 0x00, CHR 0x00, CHR 0x01,
      CHR 0x00, CHR 0x00, CHR 0x00, CHR 0x07,
      CHR 0x02,
      CHR 0x00, CHR 0x12, CHR 0x00, CHR 0x01, CHR ''k'']"

definition legacy_entry_example :: string where
  "legacy_entry_example =
     [CHR 0x00, CHR 0x00, CHR 0x00, CHR 0x12,
      CHR 0x00, CHR 0x01, CHR 0x00, CHR 0x01, CHR ''R'', CHR 0x00, CHR 0x01, CHR ''a'',
      CHR 0x00, CHR 0x00, CHR 0x00, CHR 0x07,
      CHR 0x02,
      CHR 0x00, CHR 0x12, CHR 0x00, CHR 0x01, CHR ''k'']"

definition v4_entry_example :: string where
  "v4_entry_example =
     [CHR 0x00, CHR 0x00, CHR 0x00, CHR 0x20,
      CHR 0x00, CHR 0x00, CHR 0x00, CHR 0x01,
      CHR 0x00, CHR 0x00, CHR 0x00, CHR 0x01,
      CHR 0x00, CHR 0x00, CHR 0x00, CHR 0x01, CHR ''R'',
      CHR 0x00, CHR 0x00, CHR 0x00, CHR 0x01, CHR ''a'',
      CHR 0x00, CHR 0x00, CHR 0x00, CHR 0x07,
      CHR 0x02,
      CHR 0x00, CHR 0x12, CHR 0x00, CHR 0x12, CHR 0x00, CHR 0x01, CHR ''k'',
      CHR 0x00, CHR 0x00]"

definition v4_reencoded_example :: string where
  "v4_reencoded_example =
     [CHR 0x00, CHR 0x00, CHR 0x00, CHR 0x1C,
      CHR 0x00, CHR 0x01,
      CHR 0x00, CHR 0x00, CHR 0x00, CHR 0x01, CHR ''R'',
      CHR 0x00, CHR 0x00, CHR 0x00, CHR 0x01, CHR ''a'',
      CHR 0x00, CHR 0x00, CHR 0x00, CHR 0x01,
      CHR 0x00, CHR 0x00, CHR 0x00, CHR 0x07,
      CHR 0x02,
      CHR 0x00, CHR 0x12, CHR 0x00, CHR 0x00, CHR 0x00, CHR 0x01, CHR ''k'']"

text \<open>
  Claim C3, as amended.  For every entry produced by decoding a keytab of version
  \<open>0x0502\<close>: whenever \<open>__write_entry\<close> produces bytes for it, decoding those bytes
  yields the same entry, field by field, except that a trailing key version that is
  present but zero comes back absent; and the decoder consumes exactly the bytes
  written.
\<close>

theorem keytab_entry_roundtrip:
  assumes dec: "load_entry (after_version 0x0502) f = Inr (e, f')"
    and enc: "write_entry (after_version 0x0502) e = Inr bytes"
  shows "load_entry (after_version 0x0502) \<lparr>content = bytes, pos = 0\<rparr> =
           Inr (e\<lparr>vno := (if vno e = Some 0 then None else vno e)\<rparr>,
                \<lparr>content = bytes, pos = length bytes\<rparr>)"
proof -
  define self where "self = after_version 0x0502"
  have v: "version self = 0x0502" "array self = Uint16"
    by (simp_all add: self_def after_version_def)
  from enc obtain princ realm d1 d2 d3 nt d4 d5 d6 d7 d8 d9 h where
    s: "split CHR ''@'' (value (principal e)) = [princ, realm]" and
    d1: "pack Uint16 (int (length (split CHR ''/'' princ))) = Inr d1" and
    d2: "make_array self realm = Inr d2" and
    d3: "make_arrays self (split CHR ''/'' princ) = Inr d3" and
    nt: "name_type (principal e) = Some nt" and
    d4: "pack Uint32 nt = Inr d4" and
    d5: "pack Uint32 (timestamp e) = Inr d5" and
    d6: "pack Char (vno8 e) = Inr d6" and
    d7: "pack Uint16 (type (key e)) = Inr d7" and
    d8: "make_array self (val (key e)) = Inr d8" and
    d9: "(case vno e of None \<Rightarrow> Inr [] | Some v \<Rightarrow> if v = 0 then Inr [] else pack Uint32 v)
           = Inr d9" and
    h: "pack Int32 (int (length (d1 @ d2 @ d3 @ d4 @ d5 @ d6 @ d7 @ d8 @ d9))) = Inr h" and
    b: "bytes = h @ d1 @ d2 @ d3 @ d4 @ d5 @ d6 @ d7 @ d8 @ d9"
    unfolding self_def by (rule write_entry_Inr)
  define fields where "fields = d1 @ d2 @ d3 @ d4 @ d5 @ d6 @ d7 @ d8"
  define f0 where "f0 = \<lparr>content = bytes, pos = 0\<rparr>"
  define f1 where "f1 = advance (length h) f0"
  define f2 where "f2 = advance (length fields) f1"
  have a0: "avail f0 = h @ (fields @ d9)"
    by (simp add: f0_def avail_def b fields_def)
  have h': "pack Int32 (int (length (fields @ d9))) = Inr h"
    using h by (simp add: fields_def)
  define sz where "sz = int (length (fields @ d9))"
  have sz0: "0 \<le> sz"
    by (simp add: sz_def)
  have g: "get_entry_size f0 = Inr (sz, f1)"
    unfolding f1_def sz_def by (rule get_entry_size_pack [OF h' _ a0]) simp
  have a1: "avail f1 = fields @ d9"
    unfolding f1_def by (rule avail_after [OF a0])
  have val_eq: "join ''/'' (split CHR ''/'' princ) @ ''@'' @ realm = value (principal e)"
  proof -
    have "join ''@'' (split CHR ''@'' (value (principal e))) = value (principal e)"
      by (rule join_split)
    then show ?thesis
      by (simp add: s join_split)
  qed
  have et: "etype (key e) = None"
    by (rule load_entry_etype [OF dec]) (simp add: after_version_def)
  have "read_fields self f1 =
      Inr ((\<lparr>name_type = Some nt,
             value = join ''/'' (split CHR ''/'' princ) @ ''@'' @ realm\<rparr>,
            timestamp e, vno8 e, \<lparr>type = type (key e), etype = None, val = val (key e)\<rparr>),
           advance (length (d1 @ d2 @ d3 @ d4 @ d5 @ d6 @ d7 @ d8)) f1)"
    by (rule read_fields_pack [OF v d1 d2 d3 d4 d5 d6 d7 d8, of f1 d9])
      (simp add: a1 fields_def)
  moreover have "\<lparr>name_type = Some nt,
      value = join ''/'' (split CHR ''/'' princ) @ ''@'' @ realm\<rparr> = principal e"
    using nt val_eq by (cases "principal e") simp
  moreover have "\<lparr>type = type (key e), etype = None, val = val (key e)\<rparr> = key e"
    using et by (cases "key e") simp
  ultimately have rf: "read_fields self f1 = Inr ((principal e, timestamp e, vno8 e, key e), f2)"
    by (simp add: f2_def fields_def)
  have a2: "avail f2 = d9 @ []"
    unfolding f2_def using avail_after [OF a1] by simp
  have tells: "tell f2 = tell f1 + int (length fields)"
    by (simp add: tell_def f2_def advance_def)
  have rv: "read_vno f2 sz (tell f1) =
      Inr (if vno e = Some 0 then None else vno e, advance (length d9) f2)"
  proof (cases "vno e = None \<or> vno e = Some 0")
    case True
    then have "d9 = []"
      using d9 by auto
    with True show ?thesis
      by (auto simp: read_vno_def Let_def tells sz_def)
  next
    case False
    then obtain x where x: "vno e = Some x" "x \<noteq> 0"
      by auto
    with d9 have p: "pack Uint32 x = Inr d9"
      by simp
    have x0: "0 \<le> x"
      by (rule pack_unsigned_nonneg [OF p]) simp
    have l: "length d9 = 4"
      using pack_nonneg(1) [OF p x0] by simp
    have "read_struct Uint32 f2 = Inr (x, advance (length d9) f2)"
      by (rule read_struct_pack [OF p x0 a2])
    then show ?thesis
      using x by (simp add: read_vno_def Let_def tells l sz_def)
  qed
  have end_pos: "advance (length d9) f2 = \<lparr>content = bytes, pos = length bytes\<rparr>"
    using pack_nonneg(1) [OF h]
    by (simp add: f2_def f1_def f0_def advance_def b fields_def)
  have rec: "\<lparr>principal = principal e, timestamp = timestamp e, vno8 = vno8 e, key = key e,
      vno = (if vno e = Some 0 then None else vno e)\<rparr> =
      e\<lparr>vno := (if vno e = Some 0 then None else vno e)\<rparr>"
    by (cases e) simp
  have "load_entry self f0 =
      Inr (e\<lparr>vno := (if vno e = Some 0 then None else vno e)\<rparr>,
           \<lparr>content = bytes, pos = length bytes\<rparr>)"
    by (simp add: load_entry_def g skip_holes_nonneg [OF sz0] rf rv end_pos rec Let_def)
  then show ?thesis
    by (simp add: self_def f0_def)
qed

text \<open>
  An entry whose trailing key version is zero: the encoder leaves the four bytes out
  and the entry comes back with no key version.
\<close>

theorem keytab_entry_roundtrip_witness:
  "load_entry (after_version 0x0502) \<lparr>content = reencoded_example, pos = 0\<rparr> =
     Inr (\<lparr>principal = \<lparr>name_type = Some 1, value = ''a@R''\<rparr>, timestamp = 7, vno8 = 2,
           key = \<lparr>type = 18, etype = None, val = ''k''\<rparr>, vno = None\<rparr>,
          \<lparr>content = reencoded_example, pos = 26\<rparr>)"
proof -
  have dec: "load_entry (after_version 0x0502) \<lparr>content = zero_vno_example, pos = 0\<rparr> =
      Inr (\<lparr>principal = \<lparr>name_type = Some 1, value = ''a@R''\<rparr>, timestamp = 7, vno8 = 2,
            key = \<lparr>type = 18, etype = None, val = ''k''\<rparr>, vno = Some 0\<rparr>,
           \<lparr>content = zero_vno_example, pos = 30\<rparr>)"
    by code_simp
  have enc: "write_entry (after_version 0x0502)
      \<lparr>principal = \<lparr>name_type = Some 1, value = ''a@R''\<rparr>, timestamp = 7, vno8 = 2,
        key = \<lparr>type = 18, etype = None, val = ''k''\<rparr>, vno = Some 0\<rparr> =
      Inr reencoded_example"
    by code_simp
  have len: "length reencoded_example = 26"
    by code_simp
  show ?thesis
    using keytab_entry_roundtrip [OF dec enc] by (simp add: len)
qed

lemma read_arrays_first_fails:
  assumes "0 < n" and "read_array self f = Inl e"
  shows "read_arrays self n f = Inl e"
  using assms by (cases n) simp_all

text \<open>
  Claim C3 as stated, for every well-formed keytab, fails outside version \<open>0x0502\<close>:
  the encoder always writes the layout of \<open>0x0502\<close>.  An entry decoded from a file of
  version \<open>0x0501\<close> has no name type, and encoding it raises \<open>KeyError\<close>.  An entry
  decoded from a file of version \<open>0x0504\<close> is encoded, with a 2-byte count and the
  name type after the components, and decoding those bytes under \<open>0x0504\<close> raises
  \<open>struct.error\<close>.
\<close>

theorem keytab_entry_roundtrip_counterexample:
  "load_entry (after_version 0x0501) \<lparr>content = legacy_entry_example, pos = 0\<rparr> =
     Inr (\<lparr>principal = \<lparr>name_type = None, value = ''a@R''\<rparr>, timestamp = 7, vno8 = 2,
           key = \<lparr>type = 18, etype = None, val = ''k''\<rparr>, vno = None\<rparr>,
          \<lparr>content = legacy_entry_example, pos = 22\<rparr>) \<and>
   write_entry (after_version 0x0501)
     \<lparr>principal = \<lparr>name_type = None, value = ''a@R''\<rparr>, timestamp = 7, vno8 = 2,
       key = \<lparr>type = 18, etype = None, val = ''k''\<rparr>, vno = None\<rparr> =
     Inl KeyError \<and>
   load_entry (after_version 0x0504) \<lparr>content = v4_entry_example, pos = 0\<rparr> =
     Inr (\<lparr>principal = \<lparr>name_type = Some 1, value = ''a@R''\<rparr>, timestamp = 7, vno8 = 2,
           key = \<lparr>type = 18, etype = Some [CHR 0x00, CHR 0x12], val = ''k''\<rparr>,
           vno = None\<rparr>,
          \<lparr>content = v4_entry_example, pos = 36\<rparr>) \<and>
   write_entry (after_version 0x0504)
     \<lparr>principal = \<lparr>name_type = Some 1, value = ''a@R''\<rparr>, timestamp = 7, vno8 = 2,
       key = \<lparr>type = 18, etype = Some [CHR 0x00, CHR 0x12], val = ''k''\<rparr>, vno = None\<rparr> =
     Inr v4_reencoded_example \<and>
   load_entry (after_version 0x0504) \<lparr>content = v4_reencoded_example, pos = 0\<rparr> =
     Inl StructError"
proof -
  let ?self = "after_version 0x0504"
  let ?at = "\<lambda>n. \<lparr>content = v4_reencoded_example, pos = n\<rparr>"
  have 1: "get_entry_size (?at 0) = Inr (28, ?at 4)"
    by code_simp
  have 2: "read_principal_head ?self (?at 4) = Inr ((Some 65536, 86528), ?at 12)"
    by code_simp
  have 3: "read_array ?self (?at 12) = Inr (drop 16 v4_reencoded_example, ?at 32)"
    by code_simp
  have 4: "read_array ?self (?at 32) = Inl StructError"
    by code_simp
  have "read_arrays ?self (nat 86528) (?at 32) = Inl StructError"
    by (rule read_arrays_first_fails [OF _ 4]) simp
  then have "read_principal ?self (?at 4) = Inl StructError"
    by (simp add: read_principal_def 2 3)
  then have "read_fields ?self (?at 4) = Inl StructError"
    by (simp add: read_fields_def)
  then have 5: "load_entry ?self (?at 0) = Inl StructError"
    by (simp add: load_entry_def 1 skip_holes_nonneg)
  have 6: "load_entry (after_version 0x0501) \<lparr>content = legacy_entry_example, pos = 0\<rparr> =
     Inr (\<lparr>principal = \<lparr>name_type = None, value = ''a@R''\<rparr>, timestamp = 7, vno8 = 2,
           key = \<lparr>type = 18, etype = None, val = ''k''\<rparr>, vno = None\<rparr>,
          \<lparr>content = legacy_entry_example, pos = 22\<rparr>)"
    by code_simp
  have 7: "write_entry (after_version 0x0501)
     \<lparr>principal = \<lparr>name_type = None, value = ''a@R''\<rparr>, timestamp = 7, vno8 = 2,
       key = \<lparr>type = 18, etype = None, val = ''k''\<rparr>, vno = None\<rparr> =
     Inl KeyError"
    by code_simp
  have 8: "load_entry (after_version 0x0504) \<lparr>content = v4_entry_example, pos = 0\<rparr> =
     Inr (\<lparr>principal = \<lparr>name_type = Some 1, value = ''a@R''\<rparr>, timestamp = 7, vno8 = 2,
           key = \<lparr>type = 18, etype = Some [CHR 0x00, CHR 0x12], val = ''k''\<rparr>,
           vno = None\<rparr>,
          \<lparr>content = v4_entry_example, pos = 36\<rparr>)"
    by code_simp
  have 9: "write_entry (after_version 0x0504)
     \<lparr>principal = \<lparr>name_type = Some 1, value = ''a@R''\<rparr>, timestamp = 7, vno8 = 2,
       key = \<lparr>type = 18, etype = Some [CHR 0x00, CHR 0x12], val = ''k''\<rparr>, vno = None\<rparr> =
     Inr v4_reencoded_example"
    by code_simp
  from 5 6 7 8 9 show ?thesis
    by (intro conjI)
qed

subsection \<open>C8: the key block\<close>

text \<open>
  Claim C8 at version \<open>0x0504\<close>.  The decoder reads a key block as a u16 type, two
  bytes of etype, a u16 length and the key (first equation).  For the same key the
  encoder writes the u16 type and then, through \<open>_make_array\<close>, a length field as wide
  as the array lengths of the container, which is 4 bytes for this version: the last
  seven bytes written are \<open>00 12\<close>, \<open>00 00 00 01\<close> and the key (second equation).
\<close>

theorem keyblock_encoding_v0504:
  "read_keyblock (after_version 0x0504)
     \<lparr>content = [CHR 0x00, CHR 0x12, CHR 0x00, CHR 0x12, CHR 0x00, CHR 0x01, CHR ''k''],
      pos = 0\<rparr> =
     Inr (\<lparr>type = 18, etype = Some [CHR 0x00, CHR 0x12], val = ''k''\<rparr>,
          \<lparr>content = [CHR 0x00, CHR 0x12, CHR 0x00, CHR 0x12, CHR 0x00, CHR 0x01, CHR ''k''],
           pos = 7\<rparr>) \<and>
   write_entry (after_version 0x0504)
     \<lparr>principal = \<lparr>name_type = Some 1, value = ''a@R''\<rparr>, timestamp = 7, vno8 = 2,
       key = \<lparr>type = 18, etype = Some [CHR 0x00, CHR 0x12], val = ''k''\<rparr>, vno = None\<rparr> =
     Inr [CHR 0x00, CHR 0x00, CHR 0x00, CHR 0x1C,
          CHR 0x00, CHR 0x01,
          CHR 0x00, CHR 0x00, CHR 0x00, CHR 0x01, CHR ''R'',
          CHR 0x00, CHR 0x00, CHR 0x00, CHR 0x01, CHR ''a'',
          CHR 0x00, CHR 0x00, CHR 0x00, CHR 0x01,
          CHR 0x00, CHR 0x00, CHR 0x00, CHR 0x07,
          CHR 0x02,
          CHR 0x00, CHR 0x12, CHR 0x00, CHR 0x00, CHR 0x00, CHR 0x01, CHR ''k'']"
  by code_simp

section \<open>C2: files that end early\<close>

subsection \<open>Truncated files\<close>

text \<open>
  \<open>cut n f\<close> is the file object \<open>f\<close>, at the same read position, on the file truncated
  to its first \<open>n\<close> bytes.  A file object is \<open>exhausted\<close> when nothing is left to read.
  A result \<open>hits_end\<close> when it is a \<open>struct.error\<close> or leaves the file exhausted.
  \<open>leading self\<close> is the size of what the \<open>try\<close> block of \<open>_read_principal\<close> reads: the
  component count, and for version \<open>0x0504\<close> the name type in front of it.
\<close>

definition cut :: "nat \<Rightarrow> stream \<Rightarrow> stream" where
  "cut n f = f\<lparr>content := take n (content f)\<rparr>"

definition exhausted :: "stream \<Rightarrow> bool" where
  "exhausted f \<longleftrightarrow> length (content f) \<le> pos f"

definition hits_end :: "error + ('a \<times> stream) \<Rightarrow> bool" where
  "hits_end r \<longleftrightarrow> (case r of Inl e \<Rightarrow> e = StructError | Inr (x, f') \<Rightarrow> exhausted f')"


lemma pos_cut [simp]: "pos (cut n f) = pos f"
  by (simp add: cut_def)











subsection \<open>Readers in sequence\<close>




lemma hits_end_Inl [simp]: "hits_end (Inl e) \<longleftrightarrow> e = StructError"
  by (simp add: hits_end_def)

lemma hits_end_Inr [simp]: "hits_end (Inr (x, f)) \<longleftrightarrow> exhausted f"
  by (simp add: hits_end_def)













subsection \<open>The fields of an entry as a sequence of readers\<close>






















end
